theory Spec2Isabelle
  imports Complex_Main
begin

section \<open>Strings\<close>

text \<open>
  A JavaScript string is a sequence of UTF-16 code units. A code unit is modelled by its
  numeric value, so that the white space and line terminators beyond Latin-1
  (U+1680, U+2000..U+200A, U+2028, U+2029, U+202F, U+205F, U+3000, U+FEFF) are
  part of the model. \<open>js\<close> turns an ASCII literal into its code units.
\<close>

type_synonym jsstring = "nat list"

definition js :: "string \<Rightarrow> jsstring" where
  "js s = map of_char s"

text \<open>
  The code units that \<^verbatim>\<open>String.prototype.trim\<close> strips and that the regular
  expression class \<^verbatim>\<open>\s\<close> matches: WhiteSpace and LineTerminator of ECMAScript.
\<close>

definition isWhiteSpace :: "nat \<Rightarrow> bool" where
  "isWhiteSpace c =
     (c = 0x09 \<or> c = 0x0A \<or> c = 0x0B \<or> c = 0x0C \<or> c = 0x0D \<or> c = 0x20 \<or> c = 0xA0
      \<or> c = 0x1680 \<or> (0x2000 \<le> c \<and> c \<le> 0x200A) \<or> c = 0x2028 \<or> c = 0x2029
      \<or> c = 0x202F \<or> c = 0x205F \<or> c = 0x3000 \<or> c = 0xFEFF)"

text \<open>The code units that \<^verbatim>\<open>.\<close> does not match (no \<^verbatim>\<open>s\<close> flag).\<close>

definition isLineTerminator :: "nat \<Rightarrow> bool" where
  "isLineTerminator c = (c = 0x0A \<or> c = 0x0D \<or> c = 0x2028 \<or> c = 0x2029)"

text \<open>The class \<^verbatim>\<open>\d\<close>: the ten ASCII digits.\<close>

definition isDigit :: "nat \<Rightarrow> bool" where
  "isDigit c = (0x30 \<le> c \<and> c \<le> 0x39)"

definition trim :: "jsstring \<Rightarrow> jsstring" where
  "trim s = rev (dropWhile isWhiteSpace (rev (dropWhile isWhiteSpace s)))"

text \<open>
  Case-insensitive matching (flag \<^verbatim>\<open>i\<close>, no flag \<^verbatim>\<open>u\<close>) compares the
  canonical forms of pattern and input code units. The canonical form of an ASCII
  letter is its upper case; a code unit from 128 on never has an ASCII canonical form.
  Both patterns of the parser consist of ASCII characters, so only the ASCII part of the
  canonical form decides a match, and that is what \<open>canonicalize\<close> computes.
\<close>

definition canonicalize :: "nat \<Rightarrow> nat" where
  "canonicalize c = (if 0x61 \<le> c \<and> c \<le> 0x7A then c - 0x20 else c)"

text \<open>
  \<^verbatim>\<open>exportText.split(/\r?\n/)\<close>: the text is scanned from the left; a line feed, or a
  carriage return directly followed by a line feed, closes the current piece \<open>cur\<close>.
  The last piece is always emitted, so the empty text gives one empty line.
\<close>

fun splitLines :: "jsstring \<Rightarrow> jsstring \<Rightarrow> jsstring list" where
  "splitLines cur [] = [cur]"
| "splitLines cur (c # cs) =
     (if c = 0x0D \<and> take 1 cs = [0x0A] then cur # splitLines [] (drop 1 cs)
      else if c = 0x0A then cur # splitLines [] cs
      else splitLines (cur @ [c]) cs)"

section \<open>Deck parser\<close>

record CardEntry =
  count :: int
  name :: jsstring

record DeckExport =
  main :: "CardEntry list"
  battlefields :: "CardEntry list"
  runes :: "CardEntry list"
  sideboard :: "CardEntry list"

text \<open>\<^verbatim>\<open>keyof DeckExport\<close>: the four bucket names.\<close>

datatype DeckBucket = B_main | B_battlefields | B_runes | B_sideboard

text \<open>
  The errors the library throws, told apart by their message: the unparsable line of
  \<^verbatim>\<open>parseCardLine\<close>, the label of the deck without data of
  \<^verbatim>\<open>ensureParsed\<close>, the unsupported inventory of \<^verbatim>\<open>normalizeInventory\<close>;
  and the \<^verbatim>\<open>TypeError\<close> of the language, thrown by \<^verbatim>\<open>String(value)\<close> and
  \<^verbatim>\<open>Number(value)\<close> on an object that has no callable conversion.
\<close>

datatype error =
  ParseError jsstring
| MissingDataError jsstring
| UnsupportedFormatError
| TypeError

definition BATTLEFIELD_NAMES :: "jsstring set" where
  "BATTLEFIELD_NAMES = set (map js
     [''Grove of the God-Willow'',
      ''Hallowed Tomb'',
      ''Monastery of Hirana'',
      ''Navori Fighting Pit'',
      ''Obelisk of Power'',
      ''Reaver's Row'',
      ''Reckoner's Arena'',
      ''Sigil of the Storm'',
      ''Startipped Peak'',
      ''Targon's Peak'',
      ''The Arena's Greatest'',
      ''The Candlelit Sanctum'',
      ''The Dreaming Tree'',
      ''The Grand Plaza'',
      ''Trifarian War Camp'',
      ''Vilemaw's Lair'',
      ''Void Gate'',
      ''Windswept Hillock'',
      ''Zaun Warrens''])"

text \<open>\<^verbatim>\<open>/^Sideboard:?$/i.test(line)\<close>\<close>

definition testSideboard :: "jsstring \<Rightarrow> bool" where
  "testSideboard line =
     (map canonicalize line = js ''SIDEBOARD'' \<or> map canonicalize line = js ''SIDEBOARD:'')"

text \<open>\<^verbatim>\<open>/Rune/i.test(name)\<close>: the pattern is tried at every position.\<close>

fun testRune :: "jsstring \<Rightarrow> bool" where
  "testRune [] = False"
| "testRune (c # cs) =
     (map canonicalize (take 4 (c # cs)) = js ''RUNE'' \<or> testRune cs)"

text \<open>
  \<^verbatim>\<open>Number(match[1])\<close> on a run of digits: its decimal value, taken exactly
  (the rounding of a number beyond 2^53 is not modelled).
\<close>

definition digitsToNumber :: "jsstring \<Rightarrow> int" where
  "digitsToNumber ds = foldl (\<lambda>a d. 10 * a + int (d - 0x30)) 0 ds"

text \<open>
  \<^verbatim>\<open>line.match(/^(\d+)\s+(.+)$/)\<close>. The first group is the whole leading run of
  digits (a shorter run would leave a digit where \<^verbatim>\<open>\s\<close> has to match). After it,
  \<^verbatim>\<open>\s+\<close> is greedy and backtracks: it takes \<open>k\<close> white-space code units, the
  longest run first and at least one, and the first \<open>k\<close> for which the rest of the line is
  not empty and free of line terminators gives the second group. The error carries the line.
\<close>

definition parseCardLine :: "jsstring \<Rightarrow> error + CardEntry" where
  "parseCardLine line =
     (let ds = takeWhile isDigit line;
          r = dropWhile isDigit line;
          n = length (takeWhile isWhiteSpace r)
      in if ds = [] then Inl (ParseError line)
         else (case find (\<lambda>k. drop k r \<noteq> [] \<and> \<not> list_ex isLineTerminator (drop k r))
                         (rev [1..<Suc n]) of
                 None \<Rightarrow> Inl (ParseError line)
               | Some k \<Rightarrow> Inr \<lparr>count = digitsToNumber ds, name = trim (drop k r)\<rparr>))"

text \<open>\<^verbatim>\<open>deck[bucket]\<close> and \<^verbatim>\<open>deck[bucket].push(entry)\<close>\<close>

fun bucketOf :: "DeckExport \<Rightarrow> DeckBucket \<Rightarrow> CardEntry list" where
  "bucketOf deck B_main = main deck"
| "bucketOf deck B_battlefields = battlefields deck"
| "bucketOf deck B_runes = runes deck"
| "bucketOf deck B_sideboard = sideboard deck"

fun push :: "DeckExport \<Rightarrow> DeckBucket \<Rightarrow> CardEntry \<Rightarrow> DeckExport" where
  "push deck B_main entry = deck\<lparr>main := main deck @ [entry]\<rparr>"
| "push deck B_battlefields entry = deck\<lparr>battlefields := battlefields deck @ [entry]\<rparr>"
| "push deck B_runes entry = deck\<lparr>runes := runes deck @ [entry]\<rparr>"
| "push deck B_sideboard entry = deck\<lparr>sideboard := sideboard deck @ [entry]\<rparr>"

text \<open>
  The loop of \<^verbatim>\<open>parseExportedDeck\<close> over the pieces of the text, with the deck built
  so far and the section cursor as its state. An exception of \<^verbatim>\<open>parseCardLine\<close>
  leaves the loop and the function.
\<close>

fun parseLoop :: "jsstring list \<Rightarrow> DeckExport \<Rightarrow> DeckBucket \<Rightarrow> error + DeckExport" where
  "parseLoop [] deck section = Inr deck"
| "parseLoop (rawLine # rest) deck section =
     (let line = trim rawLine
      in if line = [] then parseLoop rest deck section
         else if testSideboard line then parseLoop rest deck B_sideboard
         else (case parseCardLine line of
                 Inl e \<Rightarrow> Inl e
               | Inr entry \<Rightarrow>
                   if testRune (name entry) then parseLoop rest (push deck B_runes entry) section
                   else if name entry \<in> BATTLEFIELD_NAMES
                     then parseLoop rest (push deck B_battlefields entry) section
                   else parseLoop rest (push deck section entry) section))"

definition parseExportedDeck :: "jsstring \<Rightarrow> error + DeckExport" where
  "parseExportedDeck exportText =
     parseLoop (splitLines [] exportText)
       \<lparr>main = [], battlefields = [], runes = [], sideboard = []\<rparr> B_main"

section \<open>Objects and the members they inherit\<close>

text \<open>
  The inventory the engine reads and the accumulators the normaliser builds are plain
  objects used as dictionaries: an object is the partial map of its own properties, and
  a read \<^verbatim>\<open>obj[name]\<close> that finds no own property goes on to
  \<^verbatim>\<open>Object.prototype\<close>. There it finds a function under each of the names below,
  and under \<^verbatim>\<open>__proto__\<close> the accessor whose getter returns
  \<^verbatim>\<open>Object.prototype\<close> itself; under any other name it finds nothing and gives
  \<^verbatim>\<open>undefined\<close>.
\<close>

definition objectPrototypeFunctions :: "jsstring list" where
  "objectPrototypeFunctions = map js
     [''constructor'', ''hasOwnProperty'', ''isPrototypeOf'', ''propertyIsEnumerable'',
      ''toLocaleString'', ''toString'', ''valueOf'', ''__defineGetter__'',
      ''__defineSetter__'', ''__lookupGetter__'', ''__lookupSetter__'']"

definition objectPrototypeNames :: "jsstring list" where
  "objectPrototypeNames = js ''__proto__'' # objectPrototypeFunctions"

datatype 'a property = Own 'a | InheritedFunction jsstring | InheritedProto | Undefined

definition getProperty :: "(jsstring \<rightharpoonup> 'a) \<Rightarrow> jsstring \<Rightarrow> 'a property" where
  "getProperty obj nm =
     (case obj nm of
        Some v \<Rightarrow> Own v
      | None \<Rightarrow>
          if nm = js ''__proto__'' then InheritedProto
          else if nm \<in> set objectPrototypeFunctions then InheritedFunction nm
          else Undefined)"

text \<open>
  The assignment \<^verbatim>\<open>obj[name] = value\<close> of a number or a string: it makes or
  updates an own property, except under the name \<^verbatim>\<open>__proto__\<close>, where, without
  an own property of that name, the inherited setter takes the value and ignores it
  (it acts on objects and \<^verbatim>\<open>null\<close> only).
\<close>

definition setProperty :: "(jsstring \<rightharpoonup> 'a) \<Rightarrow> jsstring \<Rightarrow> 'a \<Rightarrow> (jsstring \<rightharpoonup> 'a)" where
  "setProperty obj nm v =
     (if nm = js ''__proto__'' \<and> obj nm = None then obj else obj(nm \<mapsto> v))"

section \<open>Comparison engine\<close>

text \<open>
  A JavaScript number that the engine counts with is modelled as an integer, and the
  inventory, a \<^verbatim>\<open>Record<string, number>\<close>, as the partial map of its own
  properties, each an integer as the type says.
\<close>

type_synonym Inventory = "jsstring \<rightharpoonup> int"

record PersistedDeck =
  slug :: jsstring
  label :: jsstring
  url :: jsstring
  exportText :: jsstring
  parsed :: "DeckExport option"

record RequirementEntry = CardEntry +
  bucket :: DeckBucket

record MissingCard =
  name :: jsstring
  required :: int
  owned :: int
  missing :: int
  bucket :: DeckBucket

datatype ComparisonStatus = Buildable | Close | Unbuildable

record DeckComparison =
  deck :: PersistedDeck
  missingCards :: "MissingCard list"
  totalMissing :: int
  status :: ComparisonStatus

text \<open>
  \<^verbatim>\<open>ensureParsed\<close> returns the deck with its \<^verbatim>\<open>parsed\<close> field present; the
  model returns that field beside the deck.
\<close>

definition ensureParsed :: "PersistedDeck \<Rightarrow> error + PersistedDeck \<times> DeckExport" where
  "ensureParsed dk =
     (case parsed dk of
        Some p \<Rightarrow> Inr (dk, p)
      | None \<Rightarrow>
          if exportText dk = [] then Inl (MissingDataError (label dk))
          else (case parseExportedDeck (exportText dk) of
                  Inl e \<Rightarrow> Inl e
                | Inr p \<Rightarrow> Inr (dk\<lparr>parsed := Some p\<rparr>, p)))"

definition collectDeckRequirements :: "DeckExport \<Rightarrow> RequirementEntry list" where
  "collectDeckRequirements dk =
     concat (map (\<lambda>b. map (\<lambda>entry. CardEntry.extend entry (RequirementEntry.fields b))
                          (bucketOf dk b))
                 [B_main, B_battlefields, B_runes, B_sideboard])"

text \<open>
  \<^verbatim>\<open>inventory[card.name] ?? 0\<close> as a number: the own count, or 0 when the read
  gives \<^verbatim>\<open>undefined\<close>. When the read gives an inherited member, \<^verbatim>\<open>owned\<close>
  is that function or object and there is no number: the test
  \<^verbatim>\<open>owned < card.count\<close> converts it to \<^verbatim>\<open>NaN\<close> and is false.
\<close>

definition ownedNumber :: "Inventory \<Rightarrow> jsstring \<Rightarrow> int option" where
  "ownedNumber inventory nm =
     (case getProperty inventory nm of
        Own v \<Rightarrow> Some v
      | Undefined \<Rightarrow> Some 0
      | InheritedFunction f \<Rightarrow> None
      | InheritedProto \<Rightarrow> None)"

text \<open>
  The \<^verbatim>\<open>for\<close> loop of \<^verbatim>\<open>compareDeck\<close>; its state is the list
  \<^verbatim>\<open>missingCards\<close> and the running \<^verbatim>\<open>totalMissing\<close>.
\<close>

fun compareLoop ::
  "Inventory \<Rightarrow> RequirementEntry list \<Rightarrow> MissingCard list \<times> int \<Rightarrow> MissingCard list \<times> int" where
  "compareLoop inventory [] acc = acc"
| "compareLoop inventory (req # rest) (cards, sofar) =
     (case ownedNumber inventory (CardEntry.name req) of
        None \<Rightarrow> compareLoop inventory rest (cards, sofar)
      | Some own \<Rightarrow>
          if own < count req
          then let deficit = count req - own
               in compareLoop inventory rest
                    (cards @ [\<lparr>MissingCard.name = CardEntry.name req, required = count req,
                                owned = own, missing = deficit,
                                bucket = RequirementEntry.bucket req\<rparr>],
                     sofar + deficit)
          else compareLoop inventory rest (cards, sofar))"

definition compareDeck :: "PersistedDeck \<Rightarrow> Inventory \<Rightarrow> int \<Rightarrow> error + DeckComparison" where
  "compareDeck dk inventory maxMissing =
     (case ensureParsed dk of
        Inl e \<Rightarrow> Inl e
      | Inr (hydrated, p) \<Rightarrow>
          (case compareLoop inventory (collectDeckRequirements p) ([], 0) of
             (cards, sofar) \<Rightarrow>
               Inr \<lparr>deck = hydrated, missingCards = cards, totalMissing = sofar,
                    status = (if sofar = 0 then Buildable
                              else if sofar \<le> maxMissing then Close else Unbuildable)\<rparr>))"

section \<open>Inventory normaliser\<close>

text \<open>
  The source of \<^verbatim>\<open>normalizeInventory\<close> is an \<^verbatim>\<open>unknown\<close> value, in the
  callers the result of \<^verbatim>\<open>JSON.parse\<close>: data without functions. A finite number
  is modelled by its exact rational value. An object is the list of its own properties
  in the order \<^verbatim>\<open>Object.entries\<close> enumerates them (its keys are distinct).
\<close>

datatype jsnum = NaN | PosInfinity | NegInfinity | Finite rat

datatype jsvalue =
  JUndefined
| JNull
| JBool bool
| JNumber jsnum
| JString jsstring
| JArray "jsvalue list"
| JObject "(jsstring \<times> jsvalue) list"

text \<open>
  What the language computes and the source does not fix is a parameter of the model:
  the numeric value of a string, the decimal text of a number, the source text of the
  function that \<^verbatim>\<open>Object.prototype\<close> holds under a name, and the double nearest to
  a rational number (an infinity when it is out of range). Every theorem holds for
  whatever they compute.
\<close>

record runtime =
  StringToNumber :: "jsstring \<Rightarrow> jsnum"
  NumberToString :: "jsnum \<Rightarrow> jsstring"
  FunctionToString :: "jsstring \<Rightarrow> jsstring"
  RoundToDouble :: "rat \<Rightarrow> jsnum"

text \<open>
  The sum of two numbers. Every integer up to 2^53 in magnitude is a double, so a sum
  that is such an integer is exact; any other sum of finite numbers is rounded.
\<close>

fun numberAdd :: "runtime \<Rightarrow> jsnum \<Rightarrow> jsnum \<Rightarrow> jsnum" where
  "numberAdd rt (Finite a) (Finite b) =
     (if of_int \<lfloor>a + b\<rfloor> = a + b \<and> \<bar>a + b\<bar> \<le> 2 ^ 53 then Finite (a + b)
      else RoundToDouble rt (a + b))"
| "numberAdd rt NaN b = NaN"
| "numberAdd rt a NaN = NaN"
| "numberAdd rt PosInfinity NegInfinity = NaN"
| "numberAdd rt NegInfinity PosInfinity = NaN"
| "numberAdd rt PosInfinity b = PosInfinity"
| "numberAdd rt NegInfinity b = NegInfinity"
| "numberAdd rt a PosInfinity = PosInfinity"
| "numberAdd rt a NegInfinity = NegInfinity"

text \<open>\<^verbatim>\<open>Array.prototype.join\<close> with the separator \<^verbatim>\<open>","\<close>\<close>

fun joinComma :: "jsstring list \<Rightarrow> jsstring" where
  "joinComma [] = []"
| "joinComma [x] = x"
| "joinComma (x # y # ys) = x @ [0x2C] @ joinComma (y # ys)"

text \<open>The results of a list of conversions, or the first error among them.\<close>

fun collect :: "(error + 'a) list \<Rightarrow> error + 'a list" where
  "collect [] = Inr []"
| "collect (Inl e # rs) = Inl e"
| "collect (Inr x # rs) = (case collect rs of Inl e \<Rightarrow> Inl e | Inr xs \<Rightarrow> Inr (x # xs))"

text \<open>
  \<^verbatim>\<open>String(value)\<close>. An array is joined, its elements converted in turn, with
  nothing for \<^verbatim>\<open>null\<close> and \<^verbatim>\<open>undefined\<close>. An object converts by its
  \<^verbatim>\<open>toString\<close>: the inherited one gives \<^verbatim>\<open>"[object Object]"\<close>; an own
  property of that name is data, so it is not callable, the inherited
  \<^verbatim>\<open>valueOf\<close> returns the object itself (and an own one is data again), and the
  conversion throws a \<^verbatim>\<open>TypeError\<close>.
\<close>

fun ToString :: "runtime \<Rightarrow> jsvalue \<Rightarrow> error + jsstring" where
  "ToString rt JUndefined = Inr (js ''undefined'')"
| "ToString rt JNull = Inr (js ''null'')"
| "ToString rt (JBool b) = Inr (if b then js ''true'' else js ''false'')"
| "ToString rt (JNumber n) = Inr (NumberToString rt n)"
| "ToString rt (JString s) = Inr s"
| "ToString rt (JArray xs) =
     (case collect (map (\<lambda>x. if x = JUndefined \<or> x = JNull then Inr [] else ToString rt x) xs) of
        Inl e \<Rightarrow> Inl e
      | Inr ss \<Rightarrow> Inr (joinComma ss))"
| "ToString rt (JObject es) =
     (if map_of es (js ''toString'') = None then Inr (js ''[object Object]'') else Inl TypeError)"

text \<open>
  \<^verbatim>\<open>Number(value)\<close>. An array or an object has no primitive
  \<^verbatim>\<open>valueOf\<close>, so it is converted to its string first, which may throw.
\<close>

fun ToNumber :: "runtime \<Rightarrow> jsvalue \<Rightarrow> error + jsnum" where
  "ToNumber rt JUndefined = Inr NaN"
| "ToNumber rt JNull = Inr (Finite 0)"
| "ToNumber rt (JBool b) = Inr (if b then Finite 1 else Finite 0)"
| "ToNumber rt (JNumber n) = Inr n"
| "ToNumber rt (JString s) = Inr (StringToNumber rt s)"
| "ToNumber rt (JArray xs) =
     (case ToString rt (JArray xs) of Inl e \<Rightarrow> Inl e | Inr s \<Rightarrow> Inr (StringToNumber rt s))"
| "ToNumber rt (JObject es) =
     (case ToString rt (JObject es) of Inl e \<Rightarrow> Inl e | Inr s \<Rightarrow> Inr (StringToNumber rt s))"

text \<open>
  What the accumulator of the normaliser holds under a name: a number, or the string
  that \<^verbatim>\<open>+\<close> makes when its left operand is not a number.
\<close>

datatype stored = Num jsnum | Str jsstring

type_synonym InventoryObject = "jsstring \<rightharpoonup> stored"

text \<open>
  \<^verbatim>\<open>(acc[name] ?? 0) + n\<close> for a number \<open>n\<close>: a sum of numbers when the read
  gives a number or nothing, and a concatenation of strings otherwise. An inherited
  function converts to its source text, and \<^verbatim>\<open>Object.prototype\<close> to
  \<^verbatim>\<open>"[object Object]"\<close>.
\<close>

fun plusNumber :: "runtime \<Rightarrow> stored property \<Rightarrow> jsnum \<Rightarrow> stored" where
  "plusNumber rt Undefined n = Num (numberAdd rt (Finite 0) n)"
| "plusNumber rt (Own (Num a)) n = Num (numberAdd rt a n)"
| "plusNumber rt (Own (Str s)) n = Str (s @ NumberToString rt n)"
| "plusNumber rt (InheritedFunction f) n = Str (FunctionToString rt f @ NumberToString rt n)"
| "plusNumber rt InheritedProto n = Str (js ''[object Object]'' @ NumberToString rt n)"

text \<open>\<^verbatim>\<open>Math.max(0, Math.floor(count))\<close> of a finite number, as a number.\<close>

definition clampFloor :: "rat \<Rightarrow> jsnum" where
  "clampFloor q = Finite (of_int (max 0 \<lfloor>q\<rfloor>))"

text \<open>
  The callback of \<^verbatim>\<open>source.reduce\<close> in the array rule. An item passes the test
  \<^verbatim>\<open>item && typeof item === "object" && "name" in item && "count" in item\<close> when
  it is an object with both properties; an array has neither. The name is converted
  before the count, and either conversion may throw.
\<close>

definition arrayStep :: "runtime \<Rightarrow> InventoryObject \<Rightarrow> jsvalue \<Rightarrow> error + InventoryObject" where
  "arrayStep rt acc item =
     (case item of
        JObject es \<Rightarrow>
          (case (map_of es (js ''name''), map_of es (js ''count'')) of
             (Some nv, Some cv) \<Rightarrow>
               (case ToString rt nv of
                  Inl e \<Rightarrow> Inl e
                | Inr s \<Rightarrow>
                    (case ToNumber rt cv of
                       Inl e \<Rightarrow> Inl e
                     | Inr (Finite q) \<Rightarrow>
                         if trim s \<noteq> []
                         then Inr (setProperty acc (trim s)
                                     (plusNumber rt (getProperty acc (trim s)) (clampFloor q)))
                         else Inr acc
                     | Inr _ \<Rightarrow> Inr acc))
           | _ \<Rightarrow> Inr acc)
      | _ \<Rightarrow> Inr acc)"

text \<open>The callback of \<^verbatim>\<open>Object.entries(source).reduce\<close> in the plain-object rule.\<close>

definition objectStep ::
  "runtime \<Rightarrow> InventoryObject \<Rightarrow> jsstring \<times> jsvalue \<Rightarrow> error + InventoryObject" where
  "objectStep rt acc entry =
     (case entry of
        (nm, v) \<Rightarrow>
          if nm = [] then Inr acc
          else (case ToNumber rt v of
                  Inl e \<Rightarrow> Inl e
                | Inr (Finite q) \<Rightarrow> Inr (setProperty acc nm (Num (clampFloor q)))
                | Inr _ \<Rightarrow> Inr acc))"

text \<open>\<^verbatim>\<open>Array.prototype.reduce\<close> with a callback that may throw.\<close>

fun reduce :: "('b \<Rightarrow> 'a \<Rightarrow> error + 'b) \<Rightarrow> 'b \<Rightarrow> 'a list \<Rightarrow> error + 'b" where
  "reduce f acc [] = Inr acc"
| "reduce f acc (x # xs) = (case f acc x of Inl e \<Rightarrow> Inl e | Inr acc' \<Rightarrow> reduce f acc' xs)"

text \<open>
  \<^verbatim>\<open>normalizeInventory\<close> calls itself once, on the \<^verbatim>\<open>cards\<close> array of an
  object, and an array is handled without a further call.
\<close>

function (sequential) normalizeInventory :: "runtime \<Rightarrow> jsvalue \<Rightarrow> error + InventoryObject" where
  "normalizeInventory rt (JArray items) = reduce (arrayStep rt) Map.empty items"
| "normalizeInventory rt (JObject es) =
     (case map_of es (js ''cards'') of
        Some (JArray items) \<Rightarrow> normalizeInventory rt (JArray items)
      | _ \<Rightarrow> reduce (objectStep rt) Map.empty es)"
| "normalizeInventory rt _ = Inl UnsupportedFormatError"
  by pat_completeness auto
termination
  by (relation "measure (\<lambda>(rt, v). case v of JObject es \<Rightarrow> 1 | _ \<Rightarrow> 0)") auto

section \<open>Reference definitions\<close>

text \<open>
  The definitions of this section do not come from the code: they say, in the words of
  the specification, what the code is compared with.
\<close>

subsection \<open>Comparison\<close>

text \<open>The owned count of a name, 0 when the inventory does not have it.\<close>

definition specOwned :: "Inventory \<Rightarrow> jsstring \<Rightarrow> int" where
  "specOwned inventory n = (case inventory n of None \<Rightarrow> 0 | Some v \<Rightarrow> v)"

text \<open>
  The four buckets flattened in the order main, battlefields, runes, sideboard, each
  entry with the bucket it comes from.
\<close>

definition specRequirements :: "DeckExport \<Rightarrow> (CardEntry \<times> DeckBucket) list" where
  "specRequirements d =
     map (\<lambda>e. (e, B_main)) (main d) @ map (\<lambda>e. (e, B_battlefields)) (battlefields d)
     @ map (\<lambda>e. (e, B_runes)) (runes d) @ map (\<lambda>e. (e, B_sideboard)) (sideboard d)"

text \<open>The entries with fewer copies owned than required, each with its shortfall.\<close>

definition specMissingCards :: "DeckExport \<Rightarrow> Inventory \<Rightarrow> MissingCard list" where
  "specMissingCards d inventory =
     map (\<lambda>(e, b). \<lparr>MissingCard.name = CardEntry.name e, required = count e,
                      owned = specOwned inventory (CardEntry.name e),
                      missing = count e - specOwned inventory (CardEntry.name e),
                      bucket = b\<rparr>)
         (filter (\<lambda>(e, b). specOwned inventory (CardEntry.name e) < count e)
                 (specRequirements d))"

text \<open>The order unbuildable < close < buildable.\<close>

fun favourability :: "ComparisonStatus \<Rightarrow> nat" where
  "favourability Unbuildable = 0"
| "favourability Close = 1"
| "favourability Buildable = 2"

text \<open>A requirement entry as the pair of its card entry and its bucket.\<close>

definition untag :: "RequirementEntry \<Rightarrow> CardEntry \<times> DeckBucket" where
  "untag r = (CardEntry.truncate r, RequirementEntry.bucket r)"

definition shortOf :: "Inventory \<Rightarrow> RequirementEntry \<Rightarrow> MissingCard" where
  "shortOf inventory r =
     \<lparr>MissingCard.name = CardEntry.name r, required = count r,
      owned = specOwned inventory (CardEntry.name r),
      missing = count r - specOwned inventory (CardEntry.name r),
      bucket = RequirementEntry.bucket r\<rparr>"

subsection \<open>Parser\<close>

text \<open>The non-blank lines of a text, trimmed, in source order.\<close>

definition specLines :: "jsstring \<Rightarrow> jsstring list" where
  "specLines text = filter (\<lambda>l. l \<noteq> []) (map trim (splitLines [] text))"

text \<open>The data lines: the non-blank lines that are not the section marker.\<close>

definition specDataLines :: "jsstring \<Rightarrow> jsstring list" where
  "specDataLines text = filter (\<lambda>l. \<not> testSideboard l) (specLines text)"

text \<open>
  The section cursor at line \<open>i\<close>: sideboard when a marker line comes before line
  \<open>i\<close>, main otherwise.
\<close>

definition specCursor :: "jsstring list \<Rightarrow> nat \<Rightarrow> DeckBucket" where
  "specCursor ls i = (if list_ex testSideboard (take i ls) then B_sideboard else B_main)"

text \<open>
  The bucket of the entry of line \<open>i\<close> with name \<open>nm\<close>: the rune rule first, then
  the battlefield rule, then the cursor.
\<close>

definition specBucket :: "jsstring list \<Rightarrow> nat \<Rightarrow> jsstring \<Rightarrow> DeckBucket" where
  "specBucket ls i nm =
     (if testRune nm then B_runes
      else if nm \<in> BATTLEFIELD_NAMES then B_battlefields
      else specCursor ls i)"

text \<open>
  What each line contributes: nothing for a marker line, one entry with its bucket for
  any other line (the entry is the one \<open>parseCardLine\<close> reads from the line).
\<close>

definition specPlaced :: "jsstring list \<Rightarrow> (DeckBucket \<times> CardEntry) list" where
  "specPlaced ls =
     concat (map (\<lambda>i. if testSideboard (ls ! i) then []
                       else (case parseCardLine (ls ! i) of
                               Inl e \<Rightarrow> []
                             | Inr entry \<Rightarrow> [(specBucket ls i (CardEntry.name entry), entry)]))
                 [0..<length ls])"

definition specEntries :: "DeckBucket \<Rightarrow> (DeckBucket \<times> CardEntry) list \<Rightarrow> CardEntry list" where
  "specEntries b ps = map snd (filter (\<lambda>p. fst p = b) ps)"

definition specDeck :: "jsstring list \<Rightarrow> DeckExport" where
  "specDeck ls =
     \<lparr>main = specEntries B_main (specPlaced ls),
      battlefields = specEntries B_battlefields (specPlaced ls),
      runes = specEntries B_runes (specPlaced ls),
      sideboard = specEntries B_sideboard (specPlaced ls)\<rparr>"

text \<open>
  The placement of the lines by a pass from the left that carries the cursor; it links
  the loop of the parser to \<open>specPlaced\<close>.
\<close>

definition place :: "DeckBucket \<Rightarrow> jsstring \<Rightarrow> DeckBucket" where
  "place section nm =
     (if testRune nm then B_runes
      else if nm \<in> BATTLEFIELD_NAMES then B_battlefields
      else section)"

fun placedFrom :: "DeckBucket \<Rightarrow> jsstring list \<Rightarrow> (DeckBucket \<times> CardEntry) list" where
  "placedFrom section [] = []"
| "placedFrom section (l # ls) =
     (if testSideboard l then placedFrom B_sideboard ls
      else (case parseCardLine l of
              Inl e \<Rightarrow> placedFrom section ls
            | Inr entry \<Rightarrow> (place section (CardEntry.name entry), entry) # placedFrom section ls))"

text \<open>A list of placed entries pushed onto a deck, one after the other.\<close>

definition pushAll :: "DeckExport \<Rightarrow> (DeckBucket \<times> CardEntry) list \<Rightarrow> DeckExport" where
  "pushAll dk ps = foldl (\<lambda>d p. push d (fst p) (snd p)) dk ps"

text \<open>The trimmed, non-blank ones of a list of raw lines.\<close>

definition nonBlank :: "jsstring list \<Rightarrow> jsstring list" where
  "nonBlank raws = filter (\<lambda>l. l \<noteq> []) (map trim raws)"

text \<open>
  The shape of a data line: a run of at least one digit, at least one white-space
  character, and a name of at least one character that has no line terminator in it.
\<close>

definition specShape :: "jsstring \<Rightarrow> bool" where
  "specShape l =
     (let ds = takeWhile isDigit l;
          r = dropWhile isDigit l;
          nm = dropWhile isWhiteSpace r
      in ds \<noteq> [] \<and> length nm < length r \<and> nm \<noteq> [] \<and> \<not> list_ex isLineTerminator nm)"

text \<open>The same shape with the leading integer required to be positive.\<close>

definition specShapePositive :: "jsstring \<Rightarrow> bool" where
  "specShapePositive l = (specShape l \<and> 0 < digitsToNumber (takeWhile isDigit l))"

text \<open>The sum of the \<open>count\<close> fields, and the number of entries, over the four buckets.\<close>

definition countSum :: "DeckExport \<Rightarrow> int" where
  "countSum d = sum_list (map count (main d @ battlefields d @ runes d @ sideboard d))"

definition entryCount :: "DeckExport \<Rightarrow> nat" where
  "entryCount d =
     length (main d) + length (battlefields d) + length (runes d) + length (sideboard d)"

text \<open>Lines put together into a text, a line feed between two lines.\<close>

fun joinLines :: "jsstring list \<Rightarrow> jsstring" where
  "joinLines [] = []"
| "joinLines [l] = l"
| "joinLines (l # m # ls) = l @ [0x0A] @ joinLines (m # ls)"

text \<open>A line without its final carriage return, if it has one.\<close>

definition stripCR :: "jsstring \<Rightarrow> jsstring" where
  "stripCR l = (if l \<noteq> [] \<and> last l = 0x0D then butlast l else l)"

subsection \<open>Inventory\<close>

text \<open>
  What a record of the array contributes: nothing when it is not an object with the
  fields \<open>name\<close> and \<open>count\<close>, when its trimmed name is empty or when its count
  does not convert to a finite number; otherwise its trimmed name with the count floored
  and clamped to 0 from below. The conversion of the name or of the count may throw.
\<close>

definition specRecord :: "runtime \<Rightarrow> jsvalue \<Rightarrow> error + (jsstring \<times> int) option" where
  "specRecord rt item =
     (case item of
        JObject es \<Rightarrow>
          (case (map_of es (js ''name''), map_of es (js ''count'')) of
             (Some nv, Some cv) \<Rightarrow>
               (case ToString rt nv of
                  Inl e \<Rightarrow> Inl e
                | Inr s \<Rightarrow>
                    (case ToNumber rt cv of
                       Inl e \<Rightarrow> Inl e
                     | Inr (Finite q) \<Rightarrow>
                         if trim s = [] then Inr None else Inr (Some (trim s, max 0 \<lfloor>q\<rfloor>))
                     | Inr _ \<Rightarrow> Inr None))
           | _ \<Rightarrow> Inr None)
      | _ \<Rightarrow> Inr None)"

text \<open>
  The contributions of the records of an array, in the order of the array, when no
  conversion throws; the first error otherwise.
\<close>

definition specContributions :: "runtime \<Rightarrow> jsvalue list \<Rightarrow> error + (jsstring \<times> int) list" where
  "specContributions rt items =
     (case collect (map (specRecord rt) items) of
        Inl e \<Rightarrow> Inl e
      | Inr rs \<Rightarrow> Inr (List.map_filter (\<lambda>r. r) rs))"

text \<open>One contribution added to an accumulator, the way the callback does it.\<close>

definition addContribution ::
  "runtime \<Rightarrow> InventoryObject \<Rightarrow> jsstring \<times> int \<Rightarrow> InventoryObject" where
  "addContribution rt acc p =
     setProperty acc (fst p)
       (plusNumber rt (getProperty acc (fst p)) (Finite (of_int (snd p))))"

text \<open>The number an accumulator holds under a name, 0 when it holds none.\<close>

definition numberAt :: "InventoryObject \<Rightarrow> jsstring \<Rightarrow> jsnum" where
  "numberAt acc k = (case acc k of Some (Num a) \<Rightarrow> a | _ \<Rightarrow> Finite 0)"

text \<open>The contributions to one name.\<close>

definition specCounts :: "jsstring \<Rightarrow> (jsstring \<times> int) list \<Rightarrow> int list" where
  "specCounts k rs = map snd (filter (\<lambda>p. fst p = k) rs)"

text \<open>
  The contributions to a name added up from 0 by the addition of the language, from the
  left; no entry when there is no contribution.
\<close>

definition specCombined :: "runtime \<Rightarrow> int list \<Rightarrow> stored option" where
  "specCombined rt cs =
     (if cs = [] then None
      else Some (Num (foldl (numberAdd rt) (Finite 0) (map (\<lambda>c. Finite (of_int c)) cs))))"

text \<open>
  The inventory of a plain object: every key but the empty one is a card name, its
  value coerced, floored and clamped; a key whose value is not finite is dropped.
\<close>

definition specPlainInventory :: "runtime \<Rightarrow> (jsstring \<times> jsvalue) list \<Rightarrow> InventoryObject" where
  "specPlainInventory rt es k =
     (if k = [] then None
      else (case map_of es k of
              None \<Rightarrow> None
            | Some v \<Rightarrow>
                (case ToNumber rt v of Inr (Finite q) \<Rightarrow> Some (Num (clampFloor q)) | _ \<Rightarrow> None)))"

text \<open>
  What the inventory of a plain object satisfies: finitely many names, none of them
  empty or \<open>__proto__\<close>, each with a number that is a non-negative integer.
\<close>

definition inventoryOk :: "InventoryObject \<Rightarrow> bool" where
  "inventoryOk inventory =
     (finite (dom inventory) \<and> [] \<notin> dom inventory \<and> js ''__proto__'' \<notin> dom inventory
      \<and> (\<forall>v\<in>ran inventory. \<exists>n. 0 \<le> n \<and> v = Num (Finite (of_int n))))"

text \<open>
  An inventory as a source value again: the plain object whose properties, enumerated
  in the order of \<open>es\<close>, hold what the inventory holds.
\<close>

fun storedValue :: "stored \<Rightarrow> jsvalue" where
  "storedValue (Num n) = JNumber n"
| "storedValue (Str s) = JString s"

definition inventoryObject :: "(jsstring \<times> stored) list \<Rightarrow> jsvalue" where
  "inventoryObject es = JObject (map (\<lambda>(k, s). (k, storedValue s)) es)"

subsection \<open>Sample data\<close>

text \<open>
  The deck and the inventory of the scenario of the specification: three copies of
  Acceptable Losses and two of Fleeting Thought in the main deck, one Acceptable Losses
  in the sideboard, two copies of each card owned.
\<close>

definition sampleParsed :: DeckExport where
  "sampleParsed =
     \<lparr>main = [\<lparr>count = 3, name = js ''Acceptable Losses''\<rparr>,
              \<lparr>count = 2, name = js ''Fleeting Thought''\<rparr>],
      battlefields = [], runes = [],
      sideboard = [\<lparr>count = 1, name = js ''Acceptable Losses''\<rparr>]\<rparr>"

definition sampleDeck :: PersistedDeck where
  "sampleDeck =
     \<lparr>slug = js ''sample'', label = js ''Sample'', url = [], exportText = [],
      parsed = Some sampleParsed\<rparr>"

definition sampleInventory :: Inventory where
  "sampleInventory = [js ''Acceptable Losses'' \<mapsto> 2, js ''Fleeting Thought'' \<mapsto> 2]"

text \<open>
  An export text with a blank line, a marker line and, after the marker, a rune and a
  battlefield: \<^verbatim>\<open>"3 Acceptable Losses\n\nSideboard:\n1 Rune of Fury\n2 Void Gate\n1 Fleeting Thought"\<close>.
\<close>

definition sampleText :: jsstring where
  "sampleText =
     joinLines [js ''3 Acceptable Losses'', [], js ''Sideboard:'', js ''1 Rune of Fury'',
                js ''2 Void Gate'', js ''1 Fleeting Thought'']"


text \<open>
  A deck that asks for three copies of a card named \<open>constructor\<close>, as parsed from the
  export text \<^verbatim>\<open>"3 constructor"\<close>.
\<close>

definition inheritedParsed :: DeckExport where
  "inheritedParsed =
     \<lparr>main = [\<lparr>count = 3, name = js ''constructor''\<rparr>], battlefields = [], runes = [],
      sideboard = []\<rparr>"

definition inheritedDeck :: PersistedDeck where
  "inheritedDeck =
     \<lparr>slug = js ''inherited'', label = js ''Inherited'', url = [], exportText = [],
      parsed = Some inheritedParsed\<rparr>"

text \<open>A record \<^verbatim>\<open>{"name": n, "count": c}\<close> of an inventory array.\<close>

definition cardRecord :: "jsvalue \<Rightarrow> jsvalue \<Rightarrow> jsvalue" where
  "cardRecord n c = JObject [(js ''name'', n), (js ''count'', c)]"

text \<open>
  A runtime to evaluate the samples of the normaliser at. Its four functions stand in
  for those of the language, and no sample depends on what they answer: the samples
  convert no string to a number, compare no text of a number or of a function, and add
  nothing beyond 2^53.
\<close>

definition sampleRuntime :: runtime where
  "sampleRuntime =
     \<lparr>StringToNumber = (\<lambda>s. NaN), NumberToString = (\<lambda>n. []),
      FunctionToString = (\<lambda>f. []), RoundToDouble = Finite\<rparr>"

section \<open>The comparison engine against its reference\<close>

lemma untag_extend: "untag (CardEntry.extend e (RequirementEntry.fields b)) = (e, b)"
  by (simp add: untag_def CardEntry.truncate_def CardEntry.extend_def RequirementEntry.fields_def)

lemma collect_spec: "map untag (collectDeckRequirements d) = specRequirements d"
  by (simp add: collectDeckRequirements_def specRequirements_def comp_def untag_extend)

lemma ownedNumber_specOwned:
  "nm \<in> dom inventory \<or> nm \<notin> set objectPrototypeNames \<Longrightarrow>
   ownedNumber inventory nm = Some (specOwned inventory nm)"
  by (cases "inventory nm")
     (auto simp: ownedNumber_def getProperty_def specOwned_def objectPrototypeNames_def)

lemma ownedNumber_inherited:
  "nm \<notin> dom inventory \<Longrightarrow> nm \<in> set objectPrototypeNames \<Longrightarrow> ownedNumber inventory nm = None"
  by (cases "inventory nm")
     (auto simp: ownedNumber_def getProperty_def objectPrototypeNames_def)

lemma compareLoop_eq:
  assumes "\<forall>r\<in>set reqs. CardEntry.name r \<in> dom inventory
                          \<or> CardEntry.name r \<notin> set objectPrototypeNames"
  shows "compareLoop inventory reqs (cards, sofar) =
     (cards @ map (shortOf inventory)
                (filter (\<lambda>r. specOwned inventory (CardEntry.name r) < count r) reqs),
      sofar + sum_list (map (\<lambda>r. count r - specOwned inventory (CardEntry.name r))
                (filter (\<lambda>r. specOwned inventory (CardEntry.name r) < count r) reqs)))"
  using assms
proof (induction reqs arbitrary: cards sofar)
  case Nil
  show ?case by simp
next
  case (Cons r reqs)
  have own: "ownedNumber inventory (CardEntry.name r) = Some (specOwned inventory (CardEntry.name r))"
    using Cons.prems by (intro ownedNumber_specOwned) simp
  have rest: "\<forall>r\<in>set reqs. CardEntry.name r \<in> dom inventory
                          \<or> CardEntry.name r \<notin> set objectPrototypeNames"
    using Cons.prems by simp
  show ?case
    by (simp add: own Cons.IH [OF rest] Let_def shortOf_def)
qed

lemma compareLoop_total_nonneg:
  "0 \<le> sofar \<Longrightarrow> 0 \<le> snd (compareLoop inventory reqs (cards, sofar))"
proof (induction reqs arbitrary: cards sofar)
  case Nil
  then show ?case by simp
next
  case (Cons r reqs)
  show ?case
  proof (cases "ownedNumber inventory (CardEntry.name r)")
    case None
    then show ?thesis using Cons by simp
  next
    case (Some own)
    then show ?thesis using Cons by (simp add: Let_def)
  qed
qed

text \<open>
  Where no card of the deck has a name that the inventory lacks and
  \<^verbatim>\<open>Object.prototype\<close> holds, the result of \<open>compareDeck\<close> is the reference one.
\<close>

lemma compareDeck_reference_without_inherited:
  assumes "parsed dk = Some d"
    and "\<forall>e\<in>set (main d @ battlefields d @ runes d @ sideboard d).
           CardEntry.name e \<in> dom inventory \<or> CardEntry.name e \<notin> set objectPrototypeNames"
  shows "\<exists>r. compareDeck dk inventory maxMissing = Inr r
           \<and> missingCards r = specMissingCards d inventory
           \<and> totalMissing r = sum_list (map missing (specMissingCards d inventory))"
proof -
  let ?short = "\<lambda>(e, b). specOwned inventory (CardEntry.name e) < count e"
  let ?mk = "\<lambda>(e, b). \<lparr>MissingCard.name = CardEntry.name e, required = count e,
                      owned = specOwned inventory (CardEntry.name e),
                      missing = count e - specOwned inventory (CardEntry.name e),
                      bucket = b\<rparr>"
  have names: "\<forall>r\<in>set (collectDeckRequirements d). CardEntry.name r \<in> dom inventory
                          \<or> CardEntry.name r \<notin> set objectPrototypeNames"
  proof
    fix r
    assume "r \<in> set (collectDeckRequirements d)"
    then obtain e b where e: "e \<in> set (main d @ battlefields d @ runes d @ sideboard d)"
      and r: "r = CardEntry.extend e (RequirementEntry.fields b)"
      by (auto simp: collectDeckRequirements_def)
    have "CardEntry.name r = CardEntry.name e"
      by (simp add: r CardEntry.extend_def)
    then show "CardEntry.name r \<in> dom inventory \<or> CardEntry.name r \<notin> set objectPrototypeNames"
      using bspec [OF assms(2) e] by simp
  qed
  have f: "filter ?short (map untag rs) =
        map untag (filter (\<lambda>r. specOwned inventory (CardEntry.name r) < count r) rs)" for rs
    by (induction rs) (simp_all add: untag_def CardEntry.truncate_def)
  have m: "map ?mk (map untag rs) = map (shortOf inventory) rs" for rs
    by (induction rs) (simp_all add: untag_def shortOf_def CardEntry.truncate_def)
  have s: "specMissingCards d inventory = map (shortOf inventory)
        (filter (\<lambda>r. specOwned inventory (CardEntry.name r) < count r) (collectDeckRequirements d))"
    unfolding specMissingCards_def collect_spec [symmetric] f m ..
  have "compareLoop inventory (collectDeckRequirements d) ([], 0) =
     (specMissingCards d inventory, sum_list (map missing (specMissingCards d inventory)))"
    by (simp add: compareLoop_eq [OF names] s comp_def shortOf_def)
  then show ?thesis
    using assms(1) by (simp add: compareDeck_def ensureParsed_def)
qed

lemmas compare_eval =
  compareDeck_def ensureParsed_def collectDeckRequirements_def ownedNumber_def getProperty_def
  objectPrototypeFunctions_def CardEntry.extend_def RequirementEntry.fields_def js_def

text \<open>
  C1. The claim holds of every deck but for one case the lookup misses. The code reads
  \<^verbatim>\<open>inventory[card.name] ?? 0\<close> to take 0 for a name the inventory lacks; for a
  name that \<^verbatim>\<open>Object.prototype\<close> holds the read gives the inherited member, not
  \<^verbatim>\<open>undefined\<close>, and the test \<^verbatim>\<open>owned < card.count\<close> is false. For the deck
  \<^verbatim>\<open>"3 constructor"\<close> and the empty inventory \<open>compareDeck\<close> reports nothing
  missing and the status buildable, where the reference computation has the card
  missing three times.
\<close>

theorem compareDeck_inherited_name:
  "compareDeck inheritedDeck Map.empty 4 =
     Inr \<lparr>deck = inheritedDeck, missingCards = [], totalMissing = 0, status = Buildable\<rparr>
   \<and> specMissingCards inheritedParsed Map.empty =
     [\<lparr>MissingCard.name = js ''constructor'', required = 3, owned = 0, missing = 3,
       bucket = B_main\<rparr>]"
  by (simp add: compare_eval inheritedDeck_def inheritedParsed_def
      specMissingCards_def specRequirements_def specOwned_def)

text \<open>
  C2. The status \<open>compareDeck\<close> returns is buildable exactly when the total of missing
  copies is 0, close exactly when the total is positive and at most the threshold
  (the bound included), and unbuildable in every other case.
\<close>

theorem compareDeck_status_iff:
  assumes "compareDeck dk inventory maxMissing = Inr r"
  shows "(status r = Buildable \<longleftrightarrow> totalMissing r = 0)
       \<and> (status r = Close \<longleftrightarrow> 0 < totalMissing r \<and> totalMissing r \<le> maxMissing)
       \<and> (totalMissing r \<noteq> 0 \<and> \<not> (0 < totalMissing r \<and> totalMissing r \<le> maxMissing)
            \<longrightarrow> status r = Unbuildable)"
proof -
  obtain hydrated p where e: "ensureParsed dk = Inr (hydrated, p)"
    using assms by (auto simp: compareDeck_def split: sum.splits)
  obtain cards sofar
    where l: "compareLoop inventory (collectDeckRequirements p) ([], 0) = (cards, sofar)"
    by (cases "compareLoop inventory (collectDeckRequirements p) ([], 0)")
  have "0 \<le> sofar"
    using compareLoop_total_nonneg [of 0 inventory "collectDeckRequirements p" "[]"] l by simp
  moreover have "r = \<lparr>deck = hydrated, missingCards = cards, totalMissing = sofar,
                    status = (if sofar = 0 then Buildable
                              else if sofar \<le> maxMissing then Close else Unbuildable)\<rparr>"
    using assms e l by (simp add: compareDeck_def)
  ultimately show ?thesis by auto
qed

lemma compareDeck_sample:
  "compareDeck sampleDeck sampleInventory m =
     Inr \<lparr>deck = sampleDeck,
          missingCards = [\<lparr>MissingCard.name = js ''Acceptable Losses'', required = 3,
                            owned = 2, missing = 1, bucket = B_main\<rparr>],
          totalMissing = 1,
          status = (if 1 \<le> m then Close else Unbuildable)\<rparr>"
  by (simp add: compare_eval sampleDeck_def sampleParsed_def sampleInventory_def)

theorem compareDeck_status_iff_witness:
  "\<exists>r. compareDeck sampleDeck sampleInventory 4 = Inr r
      \<and> totalMissing r = 1 \<and> status r = Close
      \<and> (status r = Close \<longleftrightarrow> 0 < totalMissing r \<and> totalMissing r \<le> 4)"
  using compareDeck_sample [of 4]
    compareDeck_status_iff [of sampleDeck sampleInventory 4]
  by simp

text \<open>
  C7. For a fixed deck and inventory the status is monotone in the threshold: with
  maxMissing1 <= maxMissing2 the status under maxMissing2 is at least as favourable as
  under maxMissing1, in the order unbuildable < close < buildable.
\<close>

theorem compareDeck_status_monotone:
  assumes "maxMissing1 \<le> maxMissing2"
    and "compareDeck dk inventory maxMissing1 = Inr r1"
    and "compareDeck dk inventory maxMissing2 = Inr r2"
  shows "favourability (status r1) \<le> favourability (status r2)"
  using assms by (auto simp: compareDeck_def split: sum.splits prod.splits if_splits)

theorem compareDeck_status_monotone_witness:
  "(0::int) \<le> 4
   \<and> (\<exists>r1 r2. compareDeck sampleDeck sampleInventory 0 = Inr r1
          \<and> compareDeck sampleDeck sampleInventory 4 = Inr r2
          \<and> status r1 = Unbuildable \<and> status r2 = Close
          \<and> favourability (status r1) \<le> favourability (status r2))"
  using compareDeck_sample [of 0] compareDeck_sample [of 4]
    compareDeck_status_monotone [of 0 4 sampleDeck sampleInventory]
  by simp

section \<open>Trimming\<close>

lemma dropWhile_fixed: "xs \<noteq> [] \<Longrightarrow> \<not> P (hd xs) \<Longrightarrow> dropWhile P xs = xs"
  by (cases xs) simp_all

lemma dropWhile_last: "dropWhile P xs \<noteq> [] \<Longrightarrow> last (dropWhile P xs) = last xs"
  by (induction xs) (auto split: if_splits)

lemma trim_fixed:
  assumes "s \<noteq> []" and "\<not> isWhiteSpace (hd s)" and "\<not> isWhiteSpace (last s)"
  shows "trim s = s"
proof -
  have "dropWhile isWhiteSpace s = s"
    using assms by (simp add: dropWhile_fixed)
  moreover have "dropWhile isWhiteSpace (rev s) = rev s"
    using assms by (intro dropWhile_fixed) (simp_all add: hd_rev)
  ultimately show ?thesis by (simp add: trim_def)
qed

lemma trim_ends:
  assumes "trim s \<noteq> []"
  shows "\<not> isWhiteSpace (hd (trim s))" and "\<not> isWhiteSpace (last (trim s))"
proof -
  let ?u = "dropWhile isWhiteSpace s"
  let ?v = "dropWhile isWhiteSpace (rev ?u)"
  have v: "?v \<noteq> []" using assms by (simp add: trim_def)
  have u: "?u \<noteq> []"
  proof
    assume a: "?u = []"
    show False using v unfolding a by simp
  qed
  have "last ?v = last (rev ?u)" using v by (rule dropWhile_last)
  then have "hd (trim s) = hd ?u" using u by (simp add: trim_def hd_rev last_rev)
  then show "\<not> isWhiteSpace (hd (trim s))" using hd_dropWhile [OF u] by simp
  have "last (trim s) = hd ?v" by (simp add: trim_def last_rev)
  then show "\<not> isWhiteSpace (last (trim s))" using hd_dropWhile [OF v] by simp
qed

lemma trim_idem: "trim (trim s) = trim s"
proof (cases "trim s = []")
  case True
  have "trim [] = []" by (simp add: trim_def)
  then show ?thesis using True by simp
next
  case False
  then show ?thesis by (intro trim_fixed trim_ends)
qed

lemma trim_append_ws:
  assumes "list_all isWhiteSpace q"
  shows "trim (b @ q) = trim b"
proof (cases "dropWhile isWhiteSpace b = []")
  case True
  then have "\<forall>x\<in>set b. isWhiteSpace x" by simp
  then have e: "dropWhile isWhiteSpace (b @ q) = []"
    using assms by (auto simp: list_all_iff)
  show ?thesis unfolding trim_def e True ..
next
  case False
  then obtain x where "x \<in> set b" and "\<not> isWhiteSpace x"
    by (auto simp: dropWhile_eq_Nil_conv)
  then have "dropWhile isWhiteSpace (b @ q) = dropWhile isWhiteSpace b @ q"
    by (rule dropWhile_append1)
  moreover have "dropWhile isWhiteSpace (rev q @ ys) = dropWhile isWhiteSpace ys" for ys
    using assms by (intro dropWhile_append2) (simp add: list_all_iff)
  ultimately show ?thesis by (simp add: trim_def)
qed

lemma trim_ws_append:
  assumes "list_all isWhiteSpace p"
  shows "trim (p @ b) = trim b"
proof -
  have "dropWhile isWhiteSpace (p @ b) = dropWhile isWhiteSpace b"
    using assms by (intro dropWhile_append2) (simp add: list_all_iff)
  then show ?thesis by (simp add: trim_def)
qed

lemma trim_pad:
  "list_all isWhiteSpace p \<Longrightarrow> list_all isWhiteSpace q \<Longrightarrow> trim (p @ b @ q) = trim b"
  by (simp add: trim_ws_append trim_append_ws)

lemma trim_stripCR: "trim (stripCR l) = trim l"
proof (cases "l \<noteq> [] \<and> last l = 0x0D")
  case True
  then have "l = butlast l @ [0x0D]" by (metis append_butlast_last_id)
  then have "trim l = trim (butlast l @ [0x0D])" by simp
  also have "\<dots> = trim (butlast l)"
    by (rule trim_append_ws) (simp add: isWhiteSpace_def)
  finally show ?thesis using True by (simp add: stripCR_def)
next
  case False
  then show ?thesis by (auto simp: stripCR_def)
qed

section \<open>Reading one line\<close>

lemma parseCardLine_error: "parseCardLine l = Inl e \<Longrightarrow> e = ParseError l"
  by (auto simp: parseCardLine_def Let_def split: if_splits option.splits)

lemma parseCardLine_name_trimmed:
  "parseCardLine l = Inr entry \<Longrightarrow> trim (CardEntry.name entry) = CardEntry.name entry"
  by (auto simp: parseCardLine_def Let_def trim_idem split: if_splits option.splits)

lemma parseCardLine_trimmed:
  assumes "l \<noteq> []" and "\<not> isWhiteSpace (last l)"
  shows "parseCardLine l =
           (if specShape l
            then Inr \<lparr>count = digitsToNumber (takeWhile isDigit l),
                      name = dropWhile isWhiteSpace (dropWhile isDigit l)\<rparr>
            else Inl (ParseError l))"
proof -
  let ?r = "dropWhile isDigit l"
  let ?n = "length (takeWhile isWhiteSpace ?r)"
  let ?nm = "dropWhile isWhiteSpace ?r"
  let ?P = "\<lambda>k. drop k ?r \<noteq> [] \<and> \<not> list_ex isLineTerminator (drop k ?r)"
  have nm: "?nm = drop ?n ?r" by (simp add: dropWhile_eq_drop)
  have len: "length ?nm < length ?r \<longleftrightarrow> 0 < ?n"
    by (metis add_diff_cancel_right' length_append length_drop length_greater_0_conv
        length_takeWhile_le nm takeWhile_dropWhile_id zero_less_diff diff_is_0_eq'
        le_neq_implies_less less_irrefl_nat bot_nat_0.not_eq_extremum)
  show ?thesis
  proof (cases "takeWhile isDigit l = [] \<or> ?n = 0")
    case True
    then show ?thesis
      using len by (auto simp: parseCardLine_def specShape_def Let_def)
  next
    case False
    then have ds: "takeWhile isDigit l \<noteq> []" and n: "0 < ?n" by auto
    have r: "?r \<noteq> []"
    proof
      assume a: "?r = []"
      show False using n unfolding a by simp
    qed
    then have "last ?r = last l" by (rule dropWhile_last)
    then have lr: "\<not> isWhiteSpace (last ?r)" using assms by simp
    have nonempty: "?nm \<noteq> []"
    proof
      assume "?nm = []"
      then have "\<forall>x\<in>set ?r. isWhiteSpace x" by (simp add: dropWhile_eq_Nil_conv)
      then show False using lr r last_in_set by blast
    qed
    have "Suc 0 \<le> ?n" using n by (simp only: Suc_leI)
    then have upt: "rev [1..<Suc ?n] = ?n # rev [1..<?n]" by simp
    show ?thesis
    proof (cases "list_ex isLineTerminator ?nm")
      case True
      have "\<not> ?P k" if "k \<in> set (rev [1..<Suc ?n])" for k
      proof -
        from that have "k \<le> ?n" by auto
        then have "drop k ?r = take (?n - k) (drop k ?r) @ ?nm"
          by (metis nm append_take_drop_id drop_drop le_add_diff_inverse2)
        then have "set ?nm \<subseteq> set (drop k ?r)" by (metis set_append Un_upper2)
        then show ?thesis using True by (auto simp: list_ex_iff)
      qed
      then have "find ?P (rev [1..<Suc ?n]) = None"
        by (simp only: find_None_iff) blast
      then show ?thesis
        using True ds by (simp add: parseCardLine_def specShape_def Let_def)
    next
      case False
      then have f: "find ?P (rev [1..<Suc ?n]) = Some ?n"
        using nonempty by (simp only: upt find.simps nm [symmetric]) simp
      have t: "trim ?nm = ?nm"
      proof (rule trim_fixed)
        show "?nm \<noteq> []" by (rule nonempty)
        show "\<not> isWhiteSpace (hd ?nm)" using hd_dropWhile [OF nonempty] .
        show "\<not> isWhiteSpace (last ?nm)" using dropWhile_last [OF nonempty] lr by simp
      qed
      have lt: "length ?nm < length ?r" using len n by blast
      have sh: "specShape l"
        unfolding specShape_def Let_def using ds lt nonempty False by blast
      have "parseCardLine l =
          Inr \<lparr>count = digitsToNumber (takeWhile isDigit l), name = trim (drop ?n ?r)\<rparr>"
        unfolding parseCardLine_def Let_def f using ds by simp
      then show ?thesis
        using sh t by (simp only: nm [symmetric] if_True)
    qed
  qed
qed

section \<open>The parser loop against the placement by line\<close>

lemma bucketOf_push:
  "bucketOf (push dk b' e) b = (if b = b' then bucketOf dk b @ [e] else bucketOf dk b)"
  by (cases b; cases b') simp_all

lemma bucketOf_pushAll: "bucketOf (pushAll dk ps) b = bucketOf dk b @ specEntries b ps"
proof (induction ps arbitrary: dk)
  case Nil
  show ?case by (simp add: pushAll_def specEntries_def)
next
  case (Cons p ps)
  have "pushAll dk (p # ps) = pushAll (push dk (fst p) (snd p)) ps"
    by (simp add: pushAll_def)
  then show ?case
    using Cons.IH [of "push dk (fst p) (snd p)"]
    by (auto simp: bucketOf_push specEntries_def)
qed

lemma pushAll_empty:
  "pushAll \<lparr>main = [], battlefields = [], runes = [], sideboard = []\<rparr> ps =
     \<lparr>main = specEntries B_main ps, battlefields = specEntries B_battlefields ps,
      runes = specEntries B_runes ps, sideboard = specEntries B_sideboard ps\<rparr>"
proof -
  let ?e = "\<lparr>main = [], battlefields = [], runes = [], sideboard = []\<rparr>"
  have "main (pushAll ?e ps) = specEntries B_main ps"
    using bucketOf_pushAll [of ?e ps B_main] by simp
  moreover have "battlefields (pushAll ?e ps) = specEntries B_battlefields ps"
    using bucketOf_pushAll [of ?e ps B_battlefields] by simp
  moreover have "runes (pushAll ?e ps) = specEntries B_runes ps"
    using bucketOf_pushAll [of ?e ps B_runes] by simp
  moreover have "sideboard (pushAll ?e ps) = specEntries B_sideboard ps"
    using bucketOf_pushAll [of ?e ps B_sideboard] by simp
  ultimately show ?thesis by simp
qed

lemma parseLoop_eq:
  "parseLoop raws dk sec =
     (case find (\<lambda>l. isl (parseCardLine l))
             (filter (\<lambda>l. \<not> testSideboard l) (nonBlank raws)) of
        Some l \<Rightarrow> Inl (ParseError l)
      | None \<Rightarrow> Inr (pushAll dk (placedFrom sec (nonBlank raws))))"
proof (induction raws arbitrary: dk sec)
  case Nil
  show ?case by (simp add: nonBlank_def pushAll_def)
next
  case (Cons raw raws)
  have tail: "nonBlank (raw # raws) =
      (if trim raw = [] then nonBlank raws else trim raw # nonBlank raws)"
    by (simp add: nonBlank_def)
  show ?case
  proof (cases "trim raw = []")
    case True
    then show ?thesis by (simp add: tail Cons.IH cong: option.case_cong)
  next
    case blank: False
    show ?thesis
    proof (cases "testSideboard (trim raw)")
      case True
      then show ?thesis using blank by (simp add: tail Cons.IH cong: option.case_cong)
    next
      case marker: False
      show ?thesis
      proof (cases "parseCardLine (trim raw)")
        case (Inl e)
        then have "e = ParseError (trim raw)" by (rule parseCardLine_error)
        then show ?thesis using blank marker Inl by (simp add: tail cong: option.case_cong)
      next
        case (Inr entry)
        have step: "pushAll dk (p # ps) = pushAll (push dk (fst p) (snd p)) ps" for p ps
          by (simp add: pushAll_def)
        show ?thesis
          using blank marker Inr by (simp add: tail Cons.IH step place_def cong: option.case_cong)
      qed
    qed
  qed
qed

lemma specPlaced_gen:
  "concat (map (\<lambda>i. if testSideboard ((pre @ ls) ! (length pre + i)) then []
                     else (case parseCardLine ((pre @ ls) ! (length pre + i)) of
                             Inl e \<Rightarrow> []
                           | Inr entry \<Rightarrow>
                               [(specBucket (pre @ ls) (length pre + i) (CardEntry.name entry),
                                 entry)]))
               [0..<length ls])
   = placedFrom (if list_ex testSideboard pre then B_sideboard else B_main) ls"
proof (induction ls arbitrary: pre)
  case Nil
  show ?case by simp
next
  case (Cons l ls)
  let ?item = "\<lambda>xs j. if testSideboard (xs ! j) then []
                     else (case parseCardLine (xs ! j) of
                             Inl e \<Rightarrow> []
                           | Inr entry \<Rightarrow> [(specBucket xs j (CardEntry.name entry), entry)])"
  have upt: "[0..<length (l # ls)] = 0 # map Suc [0..<length ls]"
    by (simp only: length_Cons upt_conv_Cons [OF zero_less_Suc] map_Suc_upt)
  have a: "pre @ l # ls = (pre @ [l]) @ ls" by simp
  have b: "length pre + Suc i = length (pre @ [l]) + i" for i by simp
  have shift: "map (\<lambda>i. ?item (pre @ l # ls) (length pre + i)) (map Suc [0..<length ls])
             = map (\<lambda>i. ?item ((pre @ [l]) @ ls) (length (pre @ [l]) + i)) [0..<length ls]"
    unfolding map_map comp_def a b ..
  have rest: "concat (map (\<lambda>i. ?item (pre @ l # ls) (length pre + i)) (map Suc [0..<length ls]))
      = placedFrom (if list_ex testSideboard (pre @ [l]) then B_sideboard else B_main) ls"
    unfolding shift by (rule Cons.IH)
  have first: "?item (pre @ l # ls) (length pre + 0) =
      (if testSideboard l then []
       else (case parseCardLine l of
               Inl e \<Rightarrow> []
             | Inr entry \<Rightarrow>
                 [(place (if list_ex testSideboard pre then B_sideboard else B_main)
                     (CardEntry.name entry), entry)]))"
    by (simp add: specBucket_def specCursor_def place_def split: sum.splits)
  have "concat (map (\<lambda>i. ?item (pre @ l # ls) (length pre + i)) [0..<length (l # ls)])
      = ?item (pre @ l # ls) (length pre + 0)
        @ concat (map (\<lambda>i. ?item (pre @ l # ls) (length pre + i)) (map Suc [0..<length ls]))"
    unfolding upt by simp
  also have "\<dots> = placedFrom (if list_ex testSideboard pre then B_sideboard else B_main) (l # ls)"
    unfolding rest first by (simp split: sum.splits)
  finally show ?case .
qed

lemma specPlaced_placedFrom: "specPlaced ls = placedFrom B_main ls"
  using specPlaced_gen [of "[]" ls] by (simp add: specPlaced_def cong: if_cong sum.case_cong)

lemma parseExportedDeck_eq:
  "parseExportedDeck text =
     (case find (\<lambda>l. isl (parseCardLine l)) (specDataLines text) of
        Some l \<Rightarrow> Inl (ParseError l)
      | None \<Rightarrow> Inr (specDeck (specLines text)))"
proof -
  have d: "pushAll \<lparr>main = [], battlefields = [], runes = [], sideboard = []\<rparr>
             (placedFrom B_main (nonBlank (splitLines [] text)))
           = specDeck (specLines text)"
    by (simp add: pushAll_empty specDeck_def specPlaced_placedFrom specLines_def nonBlank_def)
  have l: "filter (\<lambda>l. \<not> testSideboard l) (nonBlank (splitLines [] text))
           = specDataLines text"
    by (simp add: specDataLines_def specLines_def nonBlank_def)
  show ?thesis
    unfolding parseExportedDeck_def parseLoop_eq d l ..
qed

lemma specLines_trimmed:
  assumes "l \<in> set (specLines text)"
  shows "l \<noteq> []" and "\<not> isWhiteSpace (last l)" and "\<not> isWhiteSpace (hd l)"
proof -
  from assms obtain raw where l: "l = trim raw" and ne: "trim raw \<noteq> []"
    by (auto simp: specLines_def)
  show "l \<noteq> []" using l ne by simp
  show "\<not> isWhiteSpace (last l)" using trim_ends(2) [OF ne] l by simp
  show "\<not> isWhiteSpace (hd l)" using trim_ends(1) [OF ne] l by simp
qed

lemma dataLine_isl:
  assumes "l \<in> set (specDataLines text)"
  shows "isl (parseCardLine l) \<longleftrightarrow> \<not> specShape l"
proof -
  have "l \<in> set (specLines text)" using assms by (simp add: specDataLines_def)
  then have "l \<noteq> []" and "\<not> isWhiteSpace (last l)" by (rule specLines_trimmed)+
  then show ?thesis by (simp add: parseCardLine_trimmed)
qed

lemma find_cong_set: "(\<And>x. x \<in> set xs \<Longrightarrow> P x = Q x) \<Longrightarrow> find P xs = find Q xs"
  by (induction xs) simp_all

lemma parseExportedDeck_shape:
  "parseExportedDeck text =
     (case find (\<lambda>l. \<not> specShape l) (specDataLines text) of
        Some l \<Rightarrow> Inl (ParseError l)
      | None \<Rightarrow> Inr (specDeck (specLines text)))"
proof -
  have "find (\<lambda>l. isl (parseCardLine l)) (specDataLines text)
      = find (\<lambda>l. \<not> specShape l) (specDataLines text)"
    by (rule find_cong_set) (rule dataLine_isl)
  then show ?thesis by (simp add: parseExportedDeck_eq)
qed

section \<open>The claims about the parser\<close>

lemmas parser_eval =
  parseExportedDeck_def parseCardLine_def trim_def isWhiteSpace_def isDigit_def
  isLineTerminator_def testSideboard_def canonicalize_def BATTLEFIELD_NAMES_def
  digitsToNumber_def js_def sampleText_def

lemma sampleText_parsed:
  "parseExportedDeck sampleText =
     Inr \<lparr>main = [\<lparr>count = 3, name = js ''Acceptable Losses''\<rparr>],
          battlefields = [\<lparr>count = 2, name = js ''Void Gate''\<rparr>],
          runes = [\<lparr>count = 1, name = js ''Rune of Fury''\<rparr>],
          sideboard = [\<lparr>count = 1, name = js ''Fleeting Thought''\<rparr>]\<rparr>"
  by (simp add: parser_eval)

lemma sampleText_dataLines:
  "specDataLines sampleText =
     [js ''3 Acceptable Losses'', js ''1 Rune of Fury'', js ''2 Void Gate'',
      js ''1 Fleeting Thought'']"
  by (simp add: specDataLines_def specLines_def parser_eval)

text \<open>
  C3. When the parse succeeds, its result is the deck of the placement by line: a
  non-blank line that equals "Sideboard" or "Sideboard:" without regard to case gives no
  entry and moves the cursor to the sideboard; every other non-blank line gives one
  entry, in runes when its name contains "Rune" without regard to case, otherwise in
  battlefields when its name is one of the battlefield names, otherwise in the bucket of
  the cursor (sideboard when a marker line comes before the line, main otherwise).
\<close>

theorem parseExportedDeck_buckets:
  assumes "parseExportedDeck text = Inr d"
  shows "d = specDeck (specLines text)"
  using assms by (simp add: parseExportedDeck_shape split: option.splits)

theorem parseExportedDeck_buckets_witness:
  "parseExportedDeck sampleText =
     Inr \<lparr>main = [\<lparr>count = 3, name = js ''Acceptable Losses''\<rparr>],
          battlefields = [\<lparr>count = 2, name = js ''Void Gate''\<rparr>],
          runes = [\<lparr>count = 1, name = js ''Rune of Fury''\<rparr>],
          sideboard = [\<lparr>count = 1, name = js ''Fleeting Thought''\<rparr>]\<rparr>
   \<and> specDeck (specLines sampleText) =
     \<lparr>main = [\<lparr>count = 3, name = js ''Acceptable Losses''\<rparr>],
      battlefields = [\<lparr>count = 2, name = js ''Void Gate''\<rparr>],
      runes = [\<lparr>count = 1, name = js ''Rune of Fury''\<rparr>],
      sideboard = [\<lparr>count = 1, name = js ''Fleeting Thought''\<rparr>]\<rparr>"
  using sampleText_parsed parseExportedDeck_buckets [OF sampleText_parsed]
  by simp

text \<open>
  C4, as the code has it. The parse fails exactly when some data line (a non-blank line
  that is not the section marker) does not have the shape of a run of digits, white
  space and a name of at least one character without a line terminator; the integer may
  be zero. The failure is the error for the first such line and nothing else: no deck
  comes with it.
\<close>

theorem parseExportedDeck_fails_iff:
  "((\<exists>e. parseExportedDeck text = Inl e) \<longleftrightarrow> (\<exists>l\<in>set (specDataLines text). \<not> specShape l))
   \<and> (\<forall>e. parseExportedDeck text = Inl e \<longrightarrow>
          (\<exists>l. find (\<lambda>l. \<not> specShape l) (specDataLines text) = Some l \<and> e = ParseError l))"
proof (cases "find (\<lambda>l. \<not> specShape l) (specDataLines text)")
  case None
  then have "\<not> (\<exists>l\<in>set (specDataLines text). \<not> specShape l)"
    by (auto simp: find_None_iff)
  then show ?thesis using None by (simp add: parseExportedDeck_shape)
next
  case (Some l)
  then have "l \<in> set (specDataLines text)" and "\<not> specShape l"
    by (auto simp: find_Some_iff)
  then show ?thesis using Some by (auto simp: parseExportedDeck_shape)
qed

lemma fake_parsed: "parseExportedDeck (js ''Nx Fake'') = Inl (ParseError (js ''Nx Fake''))"
  by (simp add: parser_eval)

theorem parseExportedDeck_fails_iff_witness:
  "parseExportedDeck (js ''Nx Fake'') = Inl (ParseError (js ''Nx Fake''))
   \<and> (\<exists>l\<in>set (specDataLines (js ''Nx Fake'')). \<not> specShape l)"
  using fake_parsed parseExportedDeck_fails_iff [of "js ''Nx Fake''"]
  by auto

text \<open>
  C4 as stated, with the integer required to be positive, fails: the line "0 Foo" does
  not start with a positive integer, and the parse succeeds on it.
\<close>

theorem parseExportedDeck_positive_counterexample:
  "specDataLines (js ''0 Foo'') = [js ''0 Foo'']
   \<and> \<not> specShapePositive (js ''0 Foo'')
   \<and> parseExportedDeck (js ''0 Foo'') =
       Inr \<lparr>main = [\<lparr>count = 0, name = js ''Foo''\<rparr>], battlefields = [], runes = [],
            sideboard = []\<rparr>"
  by (simp add: specDataLines_def specLines_def specShapePositive_def specShape_def parser_eval)

lemma entryCount_specDeck: "entryCount (specDeck ls) = length (specPlaced ls)"
proof -
  have "length (specEntries B_main ps) + length (specEntries B_battlefields ps)
        + length (specEntries B_runes ps) + length (specEntries B_sideboard ps) = length ps"
    for ps :: "(DeckBucket \<times> CardEntry) list"
  proof (induction ps)
    case Nil
    show ?case by (simp add: specEntries_def)
  next
    case (Cons p ps)
    then show ?case by (cases "fst p") (simp_all add: specEntries_def)
  qed
  then show ?thesis by (simp add: entryCount_def specDeck_def)
qed

lemma length_placedFrom:
  "\<forall>l\<in>set ls. \<not> testSideboard l \<longrightarrow> \<not> isl (parseCardLine l) \<Longrightarrow>
   length (placedFrom sec ls) = length (filter (\<lambda>l. \<not> testSideboard l) ls)"
  by (induction ls arbitrary: sec) (auto split: sum.splits)

text \<open>
  C5, as the code has it. When the parse succeeds, the number of entries over the four
  buckets is the number of data lines of the text: every data line gives exactly one
  entry.
\<close>

theorem parseExportedDeck_entry_count:
  assumes "parseExportedDeck text = Inr d"
  shows "entryCount d = length (specDataLines text)"
proof -
  have none: "find (\<lambda>l. isl (parseCardLine l)) (specDataLines text) = None"
    using assms by (simp add: parseExportedDeck_eq split: option.splits)
  have d: "d = specDeck (specLines text)"
    using assms by (simp add: parseExportedDeck_eq split: option.splits)
  have "\<forall>l\<in>set (specLines text). \<not> testSideboard l \<longrightarrow> \<not> isl (parseCardLine l)"
    using none by (auto simp: find_None_iff specDataLines_def)
  then have "length (placedFrom B_main (specLines text)) = length (specDataLines text)"
    unfolding specDataLines_def by (rule length_placedFrom)
  then show ?thesis
    by (simp add: d entryCount_specDeck specPlaced_placedFrom)
qed

theorem parseExportedDeck_entry_count_witness:
  "parseExportedDeck sampleText =
     Inr \<lparr>main = [\<lparr>count = 3, name = js ''Acceptable Losses''\<rparr>],
          battlefields = [\<lparr>count = 2, name = js ''Void Gate''\<rparr>],
          runes = [\<lparr>count = 1, name = js ''Rune of Fury''\<rparr>],
          sideboard = [\<lparr>count = 1, name = js ''Fleeting Thought''\<rparr>]\<rparr>
   \<and> length (specDataLines sampleText) = 4"
  using sampleText_parsed parseExportedDeck_entry_count [OF sampleText_parsed]
  by (simp add: entryCount_def)

text \<open>
  C5 as stated, with the \<open>count\<close> fields summed, fails: the text "3 A" has one
  data line, and the \<open>count\<close> fields of its deck sum to 3.
\<close>

theorem parseExportedDeck_count_sum_counterexample:
  "parseExportedDeck (js ''3 A'') =
     Inr \<lparr>main = [\<lparr>count = 3, name = js ''A''\<rparr>], battlefields = [], runes = [],
          sideboard = []\<rparr>
   \<and> countSum \<lparr>main = [\<lparr>count = 3, name = js ''A''\<rparr>], battlefields = [], runes = [],
               sideboard = []\<rparr> = 3
   \<and> length (specDataLines (js ''3 A'')) = 1"
  by (simp add: specDataLines_def specLines_def countSum_def parser_eval)

section \<open>Lines and padding\<close>

lemma testRune_iff:
  "testRune s \<longleftrightarrow> (\<exists>pre r post. s = pre @ r @ post \<and> map canonicalize r = js ''RUNE'')"
proof (induction s)
  case Nil
  show ?case by (auto simp: js_def)
next
  case (Cons c cs)
  show ?case
  proof
    assume "testRune (c # cs)"
    then consider "map canonicalize (take 4 (c # cs)) = js ''RUNE''" | "testRune cs" by auto
    then show "\<exists>pre r post. c # cs = pre @ r @ post \<and> map canonicalize r = js ''RUNE''"
    proof cases
      case 1
      have "c # cs = [] @ take 4 (c # cs) @ drop 4 (c # cs)" by simp
      then show ?thesis using 1 by blast
    next
      case 2
      then obtain pre r post where "cs = pre @ r @ post" and "map canonicalize r = js ''RUNE''"
        using Cons.IH by blast
      then have "c # cs = (c # pre) @ r @ post \<and> map canonicalize r = js ''RUNE''" by simp
      then show ?thesis by blast
    qed
  next
    assume "\<exists>pre r post. c # cs = pre @ r @ post \<and> map canonicalize r = js ''RUNE''"
    then obtain pre r post where s: "c # cs = pre @ r @ post"
      and r: "map canonicalize r = js ''RUNE''" by blast
    have "length (map canonicalize r) = 4" unfolding r by (simp add: js_def)
    then have len: "length r = 4" by simp
    show "testRune (c # cs)"
    proof (cases pre)
      case Nil
      then have "take 4 (c # cs) = r" using s len by simp
      then show ?thesis using r by simp
    next
      case (Cons p pre')
      then have "cs = pre' @ r @ post" using s by simp
      then have "testRune cs" using r Cons.IH by blast
      then show ?thesis by simp
    qed
  qed
qed

lemma stripCR_Cons:
  "\<not> (c = 0x0D \<and> y = []) \<Longrightarrow> stripCR (c # y) = c # stripCR y"
  by (auto simp: stripCR_def)

lemma splitLines_line:
  "0x0A \<notin> set y \<Longrightarrow>
   splitLines cur (y @ 0x0A # rest) = (cur @ stripCR y) # splitLines [] rest"
proof (induction y arbitrary: cur)
  case Nil
  show ?case by (simp add: stripCR_def)
next
  case (Cons c y)
  then have c: "c \<noteq> 0x0A" and y: "0x0A \<notin> set y" by auto
  show ?case
  proof (cases "c = 0x0D \<and> y = []")
    case True
    then show ?thesis by (simp add: stripCR_def)
  next
    case False
    have "take 1 (y @ 0x0A # rest) \<noteq> [0x0A] \<or> c \<noteq> 0x0D"
    proof (cases y)
      case Nil
      then show ?thesis using False by simp
    next
      case (Cons a y')
      then show ?thesis using y by auto
    qed
    then have "splitLines cur ((c # y) @ 0x0A # rest) = splitLines (cur @ [c]) (y @ 0x0A # rest)"
      using c by auto
    also have "\<dots> = ((cur @ [c]) @ stripCR y) # splitLines [] rest"
      using y by (rule Cons.IH)
    finally show ?thesis using False by (simp add: stripCR_Cons)
  qed
qed

lemma splitLines_last: "0x0A \<notin> set y \<Longrightarrow> splitLines cur y = [cur @ y]"
proof (induction y arbitrary: cur)
  case Nil
  show ?case by simp
next
  case (Cons c y)
  then have "c \<noteq> 0x0A" and y: "0x0A \<notin> set y" by auto
  moreover have "take 1 y \<noteq> [0x0A]" using y by (cases y) auto
  ultimately show ?case using Cons.IH [OF y, of "cur @ [c]"] by simp
qed

lemma trim_splitLines_joinLines:
  "ys \<noteq> [] \<Longrightarrow> \<forall>y\<in>set ys. 0x0A \<notin> set y \<Longrightarrow>
   map trim (splitLines [] (joinLines ys)) = map trim ys"
proof (induction ys rule: joinLines.induct)
  case 1
  then show ?case by simp
next
  case (2 l)
  then show ?case by (simp add: splitLines_last)
next
  case (3 l m ls)
  then have "0x0A \<notin> set l" by simp
  then have "splitLines [] (joinLines (l # m # ls)) = stripCR l # splitLines [] (joinLines (m # ls))"
    using splitLines_line [of l "[]" "joinLines (m # ls)"] by simp
  then show ?case using 3 by (simp add: trim_stripCR)
qed

lemma parseExportedDeck_trim_cong:
  assumes "map trim (splitLines [] text1) = map trim (splitLines [] text2)"
  shows "parseExportedDeck text1 = parseExportedDeck text2"
proof -
  have n: "nonBlank (splitLines [] text1) = nonBlank (splitLines [] text2)"
    using assms by (simp add: nonBlank_def)
  show ?thesis unfolding parseExportedDeck_def parseLoop_eq n ..
qed

lemma placedFrom_names_trimmed:
  "p \<in> set (placedFrom sec ls) \<Longrightarrow> trim (CardEntry.name (snd p)) = CardEntry.name (snd p)"
  by (induction ls arbitrary: sec)
     (auto split: if_splits sum.splits dest: parseCardLine_name_trimmed)

text \<open>
  C10. Every line is trimmed before anything else is done with it: white space put
  before and after the lines of a text (any white space that is not a line feed, which
  would start a new line) does not change the result of the parse, and every name in
  a parsed deck is free of white space at both ends.
\<close>

theorem parseExportedDeck_trims_lines:
  assumes "list_all (\<lambda>(p, b, q). list_all isWhiteSpace p \<and> list_all isWhiteSpace q
                                  \<and> 0x0A \<notin> set (p @ b @ q)) xs"
  shows "parseExportedDeck (joinLines (map (\<lambda>(p, b, q). p @ b @ q) xs))
           = parseExportedDeck (joinLines (map (\<lambda>(p, b, q). b) xs))
         \<and> (\<forall>d. parseExportedDeck text = Inr d \<longrightarrow>
              (\<forall>e\<in>set (main d @ battlefields d @ runes d @ sideboard d).
                 trim (CardEntry.name e) = CardEntry.name e))"
proof
  show "parseExportedDeck (joinLines (map (\<lambda>(p, b, q). p @ b @ q) xs))
           = parseExportedDeck (joinLines (map (\<lambda>(p, b, q). b) xs))"
  proof (cases "xs = []")
    case True
    then show ?thesis by simp
  next
    case False
    let ?padded = "map (\<lambda>(p, b, q). p @ b @ q) xs"
    let ?bodies = "map (\<lambda>(p, b, q). b) xs"
    have "map trim (splitLines [] (joinLines ?padded)) = map trim ?padded"
      using False assms by (intro trim_splitLines_joinLines) (auto simp: list_all_iff)
    moreover have "map trim (splitLines [] (joinLines ?bodies)) = map trim ?bodies"
      using False assms by (intro trim_splitLines_joinLines) (auto simp: list_all_iff)
    moreover have "map trim ?padded = map trim ?bodies"
      using assms by (auto simp: list_all_iff trim_pad)
    ultimately show ?thesis by (intro parseExportedDeck_trim_cong) simp
  qed
  show "\<forall>d. parseExportedDeck text = Inr d \<longrightarrow>
              (\<forall>e\<in>set (main d @ battlefields d @ runes d @ sideboard d).
                 trim (CardEntry.name e) = CardEntry.name e)"
  proof (intro allI impI ballI)
    fix d e
    assume "parseExportedDeck text = Inr d"
      and e: "e \<in> set (main d @ battlefields d @ runes d @ sideboard d)"
    then have "d = specDeck (specLines text)"
      by (simp add: parseExportedDeck_eq split: option.splits)
    then have "e \<in> snd ` set (placedFrom B_main (specLines text))"
      using e by (auto simp: specDeck_def specEntries_def specPlaced_placedFrom)
    then show "trim (CardEntry.name e) = CardEntry.name e"
      using placedFrom_names_trimmed by auto
  qed
qed

theorem parseExportedDeck_trims_lines_witness:
  "parseExportedDeck (joinLines [js ''  3 Card'', js ''  Sideboard  '', [0x09] @ js ''1 Other'' @ [0x0D]])
     = parseExportedDeck (joinLines [js ''3 Card'', js ''Sideboard'', js ''1 Other''])
   \<and> parseExportedDeck (joinLines [js ''  3 Card'', js ''  Sideboard  '', [0x09] @ js ''1 Other'' @ [0x0D]])
     = Inr \<lparr>main = [\<lparr>count = 3, name = js ''Card''\<rparr>], battlefields = [], runes = [],
            sideboard = [\<lparr>count = 1, name = js ''Other''\<rparr>]\<rparr>"
proof -
  have p: "parseExportedDeck (joinLines [js ''  3 Card'', js ''  Sideboard  '', [0x09] @ js ''1 Other'' @ [0x0D]])
     = Inr \<lparr>main = [\<lparr>count = 3, name = js ''Card''\<rparr>], battlefields = [], runes = [],
            sideboard = [\<lparr>count = 1, name = js ''Other''\<rparr>]\<rparr>"
    by (simp add: parser_eval)
  have "parseExportedDeck (joinLines (map (\<lambda>(p, b, q). p @ b @ q)
            [(js ''  '', js ''3 Card'', []), (js ''  '', js ''Sideboard'', js ''  ''),
             ([0x09], js ''1 Other'', [0x0D])]))
     = parseExportedDeck (joinLines (map (\<lambda>(p, b, q). b)
            [(js ''  '', js ''3 Card'', []), (js ''  '', js ''Sideboard'', js ''  ''),
             ([0x09], js ''1 Other'', [0x0D])]))"
    using parseExportedDeck_trims_lines
      [of "[(js ''  '', js ''3 Card'', []), (js ''  '', js ''Sideboard'', js ''  ''),
            ([0x09], js ''1 Other'', [0x0D])]"]
    by (simp add: isWhiteSpace_def js_def)
  then have "parseExportedDeck (joinLines [js ''  3 Card'', js ''  Sideboard  '', [0x09] @ js ''1 Other'' @ [0x0D]])
     = parseExportedDeck (joinLines [js ''3 Card'', js ''Sideboard'', js ''1 Other''])"
    by (simp add: js_def)
  then show ?thesis using p by simp
qed

section \<open>The claims about the inventory normaliser\<close>

lemma collect_Inl: "collect rs = Inl e \<Longrightarrow> Inl e \<in> set rs"
proof (induction rs)
  case Nil
  then show ?case by simp
next
  case (Cons r rs)
  then show ?case by (cases r) (auto split: sum.splits)
qed

lemma ToString_error: "ToString rt v = Inl e \<Longrightarrow> e = TypeError"
proof (induction rt v rule: ToString.induct)
  case (6 rt xs)
  let ?f = "\<lambda>x. if x = JUndefined \<or> x = JNull then Inr [] else ToString rt x"
  from 6(2) have "collect (map ?f xs) = Inl e" by (simp split: sum.splits)
  then have "Inl e \<in> set (map ?f xs)" by (rule collect_Inl)
  then obtain x where x: "x \<in> set xs" and fx: "?f x = Inl e" by auto
  then have "\<not> (x = JUndefined \<or> x = JNull)" and "ToString rt x = Inl e"
    by (auto split: if_splits)
  then show ?case using 6(1) [OF x] by simp
next
  case (7 rt es)
  then show ?case by (cases "map_of es (js ''toString'') = None") simp_all
qed simp_all

lemma ToNumber_error: "ToNumber rt v = Inl e \<Longrightarrow> e = TypeError"
proof (cases v)
  case (JArray xs)
  assume "ToNumber rt v = Inl e"
  then have "ToString rt (JArray xs) = Inl e"
    unfolding JArray by (simp del: ToString.simps split: sum.splits)
  then show ?thesis by (rule ToString_error)
next
  case (JObject es)
  assume "ToNumber rt v = Inl e"
  then have "ToString rt (JObject es) = Inl e"
    unfolding JObject by (simp del: ToString.simps split: sum.splits)
  then show ?thesis by (rule ToString_error)
qed simp_all

lemma arrayStep_specRecord:
  "arrayStep rt acc item =
     (case specRecord rt item of
        Inl e \<Rightarrow> Inl e
      | Inr None \<Rightarrow> Inr acc
      | Inr (Some p) \<Rightarrow> Inr (addContribution rt acc p))"
proof (cases item)
  case (JObject es)
  show ?thesis
  proof (cases "map_of es (js ''name'')")
    case None
    then show ?thesis by (simp add: JObject arrayStep_def specRecord_def)
  next
    case nv: (Some nv)
    show ?thesis
    proof (cases "map_of es (js ''count'')")
      case None
      then show ?thesis by (simp add: JObject nv arrayStep_def specRecord_def)
    next
      case cv: (Some cv)
      show ?thesis
      proof (cases "ToString rt nv")
        case (Inl e)
        then show ?thesis by (simp add: JObject nv cv arrayStep_def specRecord_def)
      next
        case s: (Inr s)
        show ?thesis
        proof (cases "ToNumber rt cv")
          case (Inl e)
          then show ?thesis by (simp add: JObject nv cv s arrayStep_def specRecord_def)
        next
          case (Inr c)
          then show ?thesis
            by (cases c)
               (simp_all add: JObject nv cv s arrayStep_def specRecord_def
                  addContribution_def clampFloor_def)
        qed
      qed
    qed
  qed
qed (simp_all add: arrayStep_def specRecord_def)

lemma specRecord_Some:
  "specRecord rt item = Inr (Some (k, c)) \<Longrightarrow> k \<noteq> [] \<and> 0 \<le> c"
proof (cases item)
  case (JObject es)
  assume s: "specRecord rt item = Inr (Some (k, c))"
  show ?thesis
  proof (cases "map_of es (js ''name'')")
    case None
    then show ?thesis using s by (simp add: JObject specRecord_def)
  next
    case nv: (Some nv)
    show ?thesis
    proof (cases "map_of es (js ''count'')")
      case None
      then show ?thesis using s by (simp add: JObject nv specRecord_def)
    next
      case cv: (Some cv)
      show ?thesis
      proof (cases "ToString rt nv")
        case (Inl e)
        then show ?thesis using s by (simp add: JObject nv cv specRecord_def)
      next
        case t: (Inr t)
        show ?thesis
        proof (cases "ToNumber rt cv")
          case (Inl e)
          then show ?thesis using s by (simp add: JObject nv cv t specRecord_def)
        next
          case (Inr n)
          then show ?thesis
            using s
            by (cases n) (auto simp: JObject nv cv t specRecord_def split: if_splits)
        qed
      qed
    qed
  qed
qed (simp_all add: specRecord_def)

lemma specContributions_Cons:
  "specContributions rt (item # items) =
     (case specRecord rt item of
        Inl e \<Rightarrow> Inl e
      | Inr r \<Rightarrow>
          (case specContributions rt items of
             Inl e \<Rightarrow> Inl e
           | Inr rs \<Rightarrow> Inr (case r of None \<Rightarrow> rs | Some p \<Rightarrow> p # rs)))"
proof (cases "specRecord rt item")
  case (Inl e)
  then show ?thesis by (simp add: specContributions_def)
next
  case r: (Inr r)
  show ?thesis
  proof (cases "collect (map (specRecord rt) items)")
    case (Inl e)
    then show ?thesis by (simp add: specContributions_def r)
  next
    case (Inr rs)
    then show ?thesis
      by (cases r) (simp_all add: specContributions_def r map_filter_simps)
  qed
qed

lemma specContributions_Nil: "specContributions rt [] = Inr []"
  by (simp add: specContributions_def map_filter_simps)

lemma reduce_arrayStep:
  "reduce (arrayStep rt) acc items =
     (case specContributions rt items of
        Inl e \<Rightarrow> Inl e
      | Inr rs \<Rightarrow> Inr (foldl (addContribution rt) acc rs))"
proof (induction items arbitrary: acc)
  case Nil
  show ?case by (simp add: specContributions_Nil)
next
  case (Cons item items)
  show ?case
  proof (cases "specRecord rt item")
    case (Inl e)
    have step: "arrayStep rt acc item = Inl e"
      using Inl by (simp add: arrayStep_specRecord)
    show ?thesis
      unfolding reduce.simps step specContributions_Cons Inl by simp
  next
    case r: (Inr r)
    show ?thesis
    proof (cases r)
      case None
      have step: "arrayStep rt acc item = Inr acc"
        using r None by (simp add: arrayStep_specRecord)
      show ?thesis
        unfolding reduce.simps step specContributions_Cons r None
        by (simp add: Cons.IH split: sum.splits)
    next
      case (Some p)
      have step: "arrayStep rt acc item = Inr (addContribution rt acc p)"
        using r Some by (simp add: arrayStep_specRecord)
      show ?thesis
        unfolding reduce.simps step specContributions_Cons r Some
        by (simp add: Cons.IH split: sum.splits)
    qed
  qed
qed

lemma specContributions_sound:
  "specContributions rt items = Inr rs \<Longrightarrow> p \<in> set rs \<Longrightarrow> fst p \<noteq> [] \<and> 0 \<le> snd p"
proof (induction items arbitrary: rs)
  case Nil
  then show ?case by (simp add: specContributions_Nil)
next
  case (Cons item items)
  from Cons.prems(1) obtain r rs' where r: "specRecord rt item = Inr r"
    and rs': "specContributions rt items = Inr rs'"
    and rs: "rs = (case r of None \<Rightarrow> rs' | Some q \<Rightarrow> q # rs')"
    by (auto simp: specContributions_Cons split: sum.splits)
  show ?case
  proof (cases r)
    case None
    then show ?thesis using Cons.IH [OF rs'] Cons.prems(2) rs by simp
  next
    case (Some q)
    have "fst q \<noteq> [] \<and> 0 \<le> snd q"
      using r Some specRecord_Some [of rt item "fst q" "snd q"] by simp
    then show ?thesis using Cons.IH [OF rs'] Cons.prems(2) rs Some by auto
  qed
qed

lemma addContribution_other: "k \<noteq> fst p \<Longrightarrow> addContribution rt acc p k = acc k"
  by (simp add: addContribution_def setProperty_def)

lemma addContribution_same:
  assumes "k \<notin> set objectPrototypeNames"
    and "acc k = None \<or> (\<exists>a. acc k = Some (Num a))"
  shows "addContribution rt acc (k, c) k
           = Some (Num (numberAdd rt (numberAt acc k) (Finite (of_int c))))"
proof -
  have k: "k \<noteq> js ''__proto__''" and f: "k \<notin> set objectPrototypeFunctions"
    using assms(1) by (auto simp: objectPrototypeNames_def)
  show ?thesis
  proof (cases "acc k")
    case None
    then have "getProperty acc k = Undefined" using k f by (simp add: getProperty_def)
    then show ?thesis using None k by (simp add: addContribution_def setProperty_def numberAt_def)
  next
    case (Some v)
    then obtain a where a: "acc k = Some (Num a)" using assms(2) by auto
    then have "getProperty acc k = Own (Num a)" by (simp add: getProperty_def)
    then show ?thesis using a k by (simp add: addContribution_def setProperty_def numberAt_def)
  qed
qed

lemma foldl_addContribution:
  assumes "k \<notin> set objectPrototypeNames"
  shows "acc k = None \<or> (\<exists>a. acc k = Some (Num a)) \<Longrightarrow>
     foldl (addContribution rt) acc rs k =
       (if specCounts k rs = [] then acc k
        else Some (Num (foldl (numberAdd rt) (numberAt acc k)
                          (map (\<lambda>c. Finite (of_int c)) (specCounts k rs)))))"
proof (induction rs arbitrary: acc)
  case Nil
  show ?case by (simp add: specCounts_def)
next
  case (Cons p rs)
  let ?acc = "addContribution rt acc p"
  show ?case
  proof (cases "fst p = k")
    case True
    then have p: "p = (k, snd p)" by (cases p) simp
    have new: "?acc k = Some (Num (numberAdd rt (numberAt acc k) (Finite (of_int (snd p)))))"
      using addContribution_same [where k = k and acc = acc and rt = rt and c = "snd p",
          OF assms Cons.prems] p
      by simp
    then have inv: "?acc k = None \<or> (\<exists>a. ?acc k = Some (Num a))" by simp
    have at: "numberAt ?acc k = numberAdd rt (numberAt acc k) (Finite (of_int (snd p)))"
      using new by (simp add: numberAt_def)
    have counts: "specCounts k (p # rs) = snd p # specCounts k rs"
      using True by (simp add: specCounts_def)
    have "foldl (addContribution rt) acc (p # rs) k = foldl (addContribution rt) ?acc rs k"
      by simp
    also have "\<dots> = (if specCounts k rs = [] then ?acc k
        else Some (Num (foldl (numberAdd rt) (numberAt ?acc k)
                          (map (\<lambda>c. Finite (of_int c)) (specCounts k rs)))))"
      using inv by (rule Cons.IH [of ?acc])
    finally show ?thesis
      unfolding counts at new by simp
  next
    case False
    then have same: "?acc k = acc k" by (simp add: addContribution_other)
    then have inv: "?acc k = None \<or> (\<exists>a. ?acc k = Some (Num a))" using Cons.prems by simp
    have at: "numberAt ?acc k = numberAt acc k" using same by (simp add: numberAt_def)
    have counts: "specCounts k (p # rs) = specCounts k rs"
      using False by (simp add: specCounts_def)
    have "foldl (addContribution rt) acc (p # rs) k = foldl (addContribution rt) ?acc rs k"
      by simp
    also have "\<dots> = (if specCounts k rs = [] then ?acc k
        else Some (Num (foldl (numberAdd rt) (numberAt ?acc k)
                          (map (\<lambda>c. Finite (of_int c)) (specCounts k rs)))))"
      using inv by (rule Cons.IH [of ?acc])
    finally show ?thesis
      unfolding counts at same .
  qed
qed

lemma numberAdd_int:
  assumes "\<bar>a + c\<bar> \<le> 2 ^ 53"
  shows "numberAdd rt (Finite (of_int a)) (Finite (of_int c)) = Finite (of_int (a + c))"
proof -
  have s: "(of_int a :: rat) + of_int c = of_int (a + c)" by simp
  have "\<bar>of_int (a + c) :: rat\<bar> = of_int \<bar>a + c\<bar>" by simp
  also have "\<dots> \<le> of_int (2 ^ 53)" using assms by (simp only: of_int_le_iff)
  finally have "\<bar>of_int (a + c) :: rat\<bar> \<le> 2 ^ 53" by simp
  then show ?thesis
    unfolding numberAdd.simps s by simp
qed

lemma foldl_numberAdd_exact:
  "0 \<le> a \<Longrightarrow> \<forall>c\<in>set cs. 0 \<le> c \<Longrightarrow> a + sum_list cs \<le> 2 ^ 53 \<Longrightarrow>
   foldl (numberAdd rt) (Finite (of_int a)) (map (\<lambda>c. Finite (of_int c)) cs)
     = Finite (of_int (a + sum_list cs))"
proof (induction cs arbitrary: a)
  case Nil
  show ?case by simp
next
  case (Cons c cs)
  have c: "0 \<le> c" and rest: "\<forall>c\<in>set cs. 0 \<le> c" using Cons.prems(2) by simp_all
  have "0 \<le> sum_list cs" using rest by (simp add: sum_list_nonneg)
  then have "\<bar>a + c\<bar> \<le> 2 ^ 53" using Cons.prems(1,3) c by simp
  then have step: "numberAdd rt (Finite (of_int a)) (Finite (of_int c)) = Finite (of_int (a + c))"
    by (rule numberAdd_int)
  have ih: "foldl (numberAdd rt) (Finite (of_int (a + c))) (map (\<lambda>c. Finite (of_int c)) cs)
      = Finite (of_int ((a + c) + sum_list cs))"
    using Cons.prems c rest by (intro Cons.IH) simp_all
  have "foldl (numberAdd rt) (Finite (of_int a)) (map (\<lambda>c. Finite (of_int c)) (c # cs))
      = foldl (numberAdd rt) (numberAdd rt (Finite (of_int a)) (Finite (of_int c)))
          (map (\<lambda>c. Finite (of_int c)) cs)"
    by (simp del: numberAdd.simps)
  also have "\<dots> = Finite (of_int ((a + c) + sum_list cs))"
    unfolding step by (rule ih)
  also have "(a + c) + sum_list cs = a + sum_list (c # cs)" by simp
  finally show ?case .
qed

lemmas inv_eval =
  arrayStep_def objectStep_def getProperty_def setProperty_def clampFloor_def
  objectPrototypeFunctions_def cardRecord_def js_def trim_def isWhiteSpace_def

text \<open>
  C6, as the code has it. When no conversion of a name or a count throws, the
  normaliser returns a mapping, and under every name that is not the name of a member
  of \<^verbatim>\<open>Object.prototype\<close> the mapping holds the contributions of the records with
  that trimmed name, added up from the left by the addition of the language: their sum
  when the sum is at most 2^53. A record contributes its count converted to a number,
  floored and clamped to 0 from below, and is skipped when it is not an object with the
  fields name and count, when its trimmed name is empty or when its count does not
  convert to a finite number. When a conversion throws, the normaliser throws.
\<close>

theorem normalizeInventory_array:
  "(\<forall>rs. specContributions rt items = Inr rs \<longrightarrow>
      (\<exists>inventory. normalizeInventory rt (JArray items) = Inr inventory
         \<and> (\<forall>k. k \<notin> set objectPrototypeNames \<longrightarrow>
               inventory k = specCombined rt (specCounts k rs)
               \<and> (specCounts k rs \<noteq> [] \<and> sum_list (specCounts k rs) \<le> 2 ^ 53 \<longrightarrow>
                    inventory k = Some (Num (Finite (of_int (sum_list (specCounts k rs)))))))))
   \<and> (\<forall>e. specContributions rt items = Inl e \<longrightarrow> normalizeInventory rt (JArray items) = Inl e)"
proof (intro conjI allI impI)
  fix e
  assume "specContributions rt items = Inl e"
  then show "normalizeInventory rt (JArray items) = Inl e"
    by (simp add: reduce_arrayStep)
next
  fix rs
  assume rs: "specContributions rt items = Inr rs"
  let ?inv = "foldl (addContribution rt) Map.empty rs"
  have n: "normalizeInventory rt (JArray items) = Inr ?inv"
    using rs by (simp add: reduce_arrayStep)
  have "\<forall>k. k \<notin> set objectPrototypeNames \<longrightarrow>
               ?inv k = specCombined rt (specCounts k rs)
               \<and> (specCounts k rs \<noteq> [] \<and> sum_list (specCounts k rs) \<le> 2 ^ 53 \<longrightarrow>
                    ?inv k = Some (Num (Finite (of_int (sum_list (specCounts k rs))))))"
  proof (intro allI impI)
    fix k
    assume k: "k \<notin> set objectPrototypeNames"
    have comb: "?inv k = specCombined rt (specCounts k rs)"
      using foldl_addContribution [OF k, of Map.empty rt rs]
      by (simp add: specCombined_def numberAt_def)
    have pos: "\<forall>c\<in>set (specCounts k rs). 0 \<le> c"
      using specContributions_sound [OF rs] by (auto simp: specCounts_def)
    have "?inv k = Some (Num (Finite (of_int (sum_list (specCounts k rs)))))"
      if "specCounts k rs \<noteq> [] \<and> sum_list (specCounts k rs) \<le> 2 ^ 53"
      using that foldl_numberAdd_exact [of 0 "specCounts k rs" rt] pos
      by (simp add: comb specCombined_def)
    then show "?inv k = specCombined rt (specCounts k rs)
               \<and> (specCounts k rs \<noteq> [] \<and> sum_list (specCounts k rs) \<le> 2 ^ 53 \<longrightarrow>
                    ?inv k = Some (Num (Finite (of_int (sum_list (specCounts k rs))))))"
      using comb by blast
  qed
  then show "\<exists>inventory. normalizeInventory rt (JArray items) = Inr inventory
         \<and> (\<forall>k. k \<notin> set objectPrototypeNames \<longrightarrow>
               inventory k = specCombined rt (specCounts k rs)
               \<and> (specCounts k rs \<noteq> [] \<and> sum_list (specCounts k rs) \<le> 2 ^ 53 \<longrightarrow>
                    inventory k = Some (Num (Finite (of_int (sum_list (specCounts k rs)))))))"
    using n by blast
qed

lemma cardA_contributions:
  "specContributions rt
     [cardRecord (JString (js ''Card A'')) (JNumber (Finite 2)),
      cardRecord (JString (js ''Card A'')) (JNumber (Finite 1))]
   = Inr [(js ''Card A'', 2), (js ''Card A'', 1)]"
  by (simp add: specContributions_def specRecord_def map_filter_simps inv_eval)

lemma cardA_normalized:
  "normalizeInventory rt
     (JArray [cardRecord (JString (js ''Card A'')) (JNumber (Finite 2)),
              cardRecord (JString (js ''Card A'')) (JNumber (Finite 1))])
   = Inr [js ''Card A'' \<mapsto> Num (Finite 3)]"
  by (simp add: inv_eval)

theorem normalizeInventory_array_witness:
  "normalizeInventory sampleRuntime
           (JArray [cardRecord (JString (js ''Card A'')) (JNumber (Finite 2)),
                    cardRecord (JString (js ''Card A'')) (JNumber (Finite 1))])
         = Inr [js ''Card A'' \<mapsto> Num (Finite 3)]
       \<and> specCounts (js ''Card A'') [(js ''Card A'', 2), (js ''Card A'', 1)] = [2, 1]
       \<and> [js ''Card A'' \<mapsto> Num (Finite 3)] (js ''Card A'')
           = Some (Num (Finite (of_int (sum_list [2, 1]))))"
proof -
  let ?items = "[cardRecord (JString (js ''Card A'')) (JNumber (Finite 2)),
                 cardRecord (JString (js ''Card A'')) (JNumber (Finite 1))]"
  let ?rs = "[(js ''Card A'', 2::int), (js ''Card A'', 1)]"
  have counts: "specCounts (js ''Card A'') ?rs = [2, 1]"
    by (simp add: specCounts_def)
  have names: "js ''Card A'' \<notin> set objectPrototypeNames"
    by (simp add: objectPrototypeNames_def objectPrototypeFunctions_def js_def)
  obtain inventory where i: "normalizeInventory sampleRuntime (JArray ?items) = Inr inventory"
    and s: "inventory (js ''Card A'') = Some (Num (Finite (of_int (sum_list [2, 1]))))"
    using normalizeInventory_array [of sampleRuntime ?items] cardA_contributions [of sampleRuntime] names counts
    by auto
  have "inventory = [js ''Card A'' \<mapsto> Num (Finite 3)]"
    using i cardA_normalized [of sampleRuntime] by simp
  then show "normalizeInventory sampleRuntime (JArray ?items) = Inr [js ''Card A'' \<mapsto> Num (Finite 3)]
       \<and> specCounts (js ''Card A'') ?rs = [2, 1]
       \<and> [js ''Card A'' \<mapsto> Num (Finite 3)] (js ''Card A'')
           = Some (Num (Finite (of_int (sum_list [2, 1]))))"
    using i s counts by simp
qed

lemma inherited_name_normalized:
  "normalizeInventory rt
     (JArray [cardRecord (JString (js ''constructor'')) (JNumber (Finite 2))])
   = Inr [js ''constructor'' \<mapsto>
           Str (FunctionToString rt (js ''constructor'') @ NumberToString rt (Finite 2))]"
  by (simp add: inv_eval)

text \<open>
  C6 as stated, for every array, fails three ways. A record named \<open>__proto__\<close> is
  not skipped by any rule of the claim and leaves no entry; a record named
  \<open>constructor\<close> leaves a string, not its count; and a record whose name is an object
  with a property \<open>toString\<close> makes the normaliser throw.
\<close>

theorem normalizeInventory_array_counterexample:
  "specContributions sampleRuntime
       [cardRecord (JString (js ''__proto__'')) (JNumber (Finite 2))]
     = Inr [(js ''__proto__'', 2)]
   \<and> normalizeInventory sampleRuntime
       (JArray [cardRecord (JString (js ''__proto__'')) (JNumber (Finite 2))])
     = Inr Map.empty
   \<and> normalizeInventory sampleRuntime
       (JArray [cardRecord (JString (js ''constructor'')) (JNumber (Finite 2))])
     \<noteq> Inr [js ''constructor'' \<mapsto> Num (Finite 2)]
   \<and> normalizeInventory sampleRuntime
       (JArray [cardRecord (JObject [(js ''toString'', JNumber (Finite 1))])
                  (JNumber (Finite 1))])
     = Inl TypeError"
proof -
  have a: "specContributions sampleRuntime
       [cardRecord (JString (js ''__proto__'')) (JNumber (Finite 2))]
     = Inr [(js ''__proto__'', 2)]"
    by (simp add: specContributions_def specRecord_def map_filter_simps inv_eval)
  have b: "normalizeInventory sampleRuntime
       (JArray [cardRecord (JString (js ''__proto__'')) (JNumber (Finite 2))])
     = Inr Map.empty"
    by (simp add: inv_eval)
  have c: "normalizeInventory sampleRuntime
       (JArray [cardRecord (JString (js ''constructor'')) (JNumber (Finite 2))])
     \<noteq> Inr [js ''constructor'' \<mapsto> Num (Finite 2)]"
  proof
    assume "normalizeInventory sampleRuntime
       (JArray [cardRecord (JString (js ''constructor'')) (JNumber (Finite 2))])
     = Inr [js ''constructor'' \<mapsto> Num (Finite 2)]"
    then have "[js ''constructor'' \<mapsto>
           Str (FunctionToString sampleRuntime (js ''constructor'')
                @ NumberToString sampleRuntime (Finite 2))]
        = [js ''constructor'' \<mapsto> Num (Finite 2)]"
      unfolding inherited_name_normalized by simp
    then have "Str (FunctionToString sampleRuntime (js ''constructor'')
                @ NumberToString sampleRuntime (Finite 2)) = Num (Finite 2)"
      by (rule map_upd_eqD1)
    then show False by simp
  qed
  have d: "normalizeInventory sampleRuntime
       (JArray [cardRecord (JObject [(js ''toString'', JNumber (Finite 1))])
                  (JNumber (Finite 1))])
     = Inl TypeError"
    by (simp add: inv_eval)
  show ?thesis using a b c d by blast
qed
lemma objectStep_empty_key: "objectStep rt acc ([], v) = Inr acc"
  by (simp add: objectStep_def)

lemma objectStep_cases:
  assumes "nm \<noteq> []"
  shows "objectStep rt acc (nm, v) =
     (case ToNumber rt v of
        Inl e \<Rightarrow> Inl e
      | Inr (Finite q) \<Rightarrow> Inr (setProperty acc nm (Num (clampFloor q)))
      | Inr _ \<Rightarrow> Inr acc)"
  using assms by (simp add: objectStep_def)

lemma objectStep_error: "objectStep rt acc e = Inl err \<Longrightarrow> err = TypeError"
proof -
  assume a: "objectStep rt acc e = Inl err"
  obtain nm v where e: "e = (nm, v)" by (cases e)
  show ?thesis
  proof (cases "nm = []")
    case True
    then show ?thesis using a e by (simp add: objectStep_empty_key)
  next
    case False
    show ?thesis
    proof (cases "ToNumber rt v")
      case (Inl x)
      then have "x = TypeError" by (rule ToNumber_error)
      then show ?thesis using a e False Inl by (simp add: objectStep_cases)
    next
      case (Inr n)
      then show ?thesis using a e False by (cases n) (simp_all add: objectStep_cases)
    qed
  qed
qed

lemma objectStep_fails:
  "(\<exists>err. objectStep rt acc e = Inl err) \<longleftrightarrow> fst e \<noteq> [] \<and> isl (ToNumber rt (snd e))"
proof -
  obtain nm v where e: "e = (nm, v)" by (cases e)
  show ?thesis
  proof (cases "nm = []")
    case True
    then show ?thesis using e by (simp add: objectStep_empty_key)
  next
    case False
    show ?thesis
    proof (cases "ToNumber rt v")
      case (Inl x)
      then show ?thesis using e False by (simp add: objectStep_cases)
    next
      case (Inr n)
      then show ?thesis using e False by (cases n) (simp_all add: objectStep_cases)
    qed
  qed
qed

lemma objectStep_other:
  "objectStep rt acc e = Inr acc' \<Longrightarrow> k \<noteq> fst e \<Longrightarrow> acc' k = acc k"
proof -
  assume a: "objectStep rt acc e = Inr acc'" and k: "k \<noteq> fst e"
  obtain nm v where e: "e = (nm, v)" by (cases e)
  show ?thesis
  proof (cases "nm = []")
    case True
    then show ?thesis using a e by (simp add: objectStep_empty_key)
  next
    case False
    show ?thesis
    proof (cases "ToNumber rt v")
      case (Inl x)
      then show ?thesis using a e False by (simp add: objectStep_cases)
    next
      case (Inr n)
      then show ?thesis
        using a e False k
        by (cases n) (auto simp: objectStep_cases setProperty_def split: if_splits)
    qed
  qed
qed

lemma objectStep_same:
  assumes "objectStep rt acc (k, v) = Inr acc'" and "js ''__proto__'' \<notin> dom acc"
  shows "acc' k =
     (if k = [] \<or> k = js ''__proto__'' then acc k
      else (case ToNumber rt v of Inr (Finite q) \<Rightarrow> Some (Num (clampFloor q)) | _ \<Rightarrow> acc k))"
proof (cases "k = []")
  case True
  then show ?thesis using assms(1) by (simp add: objectStep_empty_key)
next
  case False
  show ?thesis
  proof (cases "ToNumber rt v")
    case (Inl x)
    then show ?thesis using assms(1) False by (simp add: objectStep_cases)
  next
    case (Inr n)
    show ?thesis
    proof (cases "k = js ''__proto__''")
      case True
      then have "acc k = None" using assms(2) by (simp add: domIff)
      then have "setProperty acc k x = acc" for x using True by (simp add: setProperty_def)
      then show ?thesis
        using assms(1) False True Inr by (cases n) (auto simp: objectStep_cases)
    next
      case proto: False
      then have "setProperty acc k x = acc(k \<mapsto> x)" for x by (simp add: setProperty_def)
      then show ?thesis
        using assms(1) False proto Inr by (cases n) (auto simp: objectStep_cases)
    qed
  qed
qed

lemma objectStep_proto:
  assumes "objectStep rt acc e = Inr acc'" and "js ''__proto__'' \<notin> dom acc"
  shows "js ''__proto__'' \<notin> dom acc'"
proof (cases "fst e = js ''__proto__''")
  case True
  then have e: "e = (js ''__proto__'', snd e)" by (cases e) simp
  have "acc' (js ''__proto__'') = acc (js ''__proto__'')"
    using objectStep_same [of rt acc "js ''__proto__''" "snd e" acc'] assms e by simp
  then show ?thesis using assms(2) by (simp add: domIff)
next
  case False
  then have "acc' (js ''__proto__'') = acc (js ''__proto__'')"
    using objectStep_other [OF assms(1)] by simp
  then show ?thesis using assms(2) by (simp add: domIff)
qed

lemma reduce_objectStep_absent:
  "reduce (objectStep rt) acc es = Inr res \<Longrightarrow> k \<notin> fst ` set es \<Longrightarrow> res k = acc k"
proof (induction es arbitrary: acc)
  case Nil
  then show ?case by simp
next
  case (Cons e es)
  from Cons.prems(1) obtain acc' where s: "objectStep rt acc e = Inr acc'"
    and r: "reduce (objectStep rt) acc' es = Inr res"
    by (auto split: sum.splits)
  have "k \<noteq> fst e" and "k \<notin> fst ` set es" using Cons.prems(2) by auto
  then show ?case
    using Cons.IH [OF r] objectStep_other [OF s] by simp
qed

lemma reduce_objectStep_value:
  "reduce (objectStep rt) acc es = Inr res \<Longrightarrow> distinct (map fst es) \<Longrightarrow>
   js ''__proto__'' \<notin> dom acc \<Longrightarrow>
   res k =
     (case map_of es k of
        None \<Rightarrow> acc k
      | Some v \<Rightarrow>
          if k = [] \<or> k = js ''__proto__'' then acc k
          else (case ToNumber rt v of Inr (Finite q) \<Rightarrow> Some (Num (clampFloor q)) | _ \<Rightarrow> acc k))"
proof (induction es arbitrary: acc)
  case Nil
  then show ?case by simp
next
  case (Cons e es)
  obtain k0 v0 where e: "e = (k0, v0)" by (cases e)
  from Cons.prems(1) obtain acc' where s: "objectStep rt acc (k0, v0) = Inr acc'"
    and r: "reduce (objectStep rt) acc' es = Inr res"
    by (auto simp: e split: sum.splits)
  have d: "distinct (map fst es)" and k0: "k0 \<notin> fst ` set es"
    using Cons.prems(2) e by auto
  have proto: "js ''__proto__'' \<notin> dom acc'"
    using objectStep_proto [OF s Cons.prems(3)] .
  show ?case
  proof (cases "k = k0")
    case True
    have "res k0 = acc' k0" using r k0 by (rule reduce_objectStep_absent)
    moreover have m: "map_of (e # es) k0 = Some v0" by (simp add: e)
    ultimately show ?thesis
      unfolding True m using objectStep_same [OF s Cons.prems(3)] by simp
  next
    case False
    have o: "acc' k = acc k" using objectStep_other [OF s] False by simp
    have m: "map_of (e # es) k = map_of es k" using False by (simp add: e)
    show ?thesis
      unfolding m Cons.IH [OF r d proto] o ..
  qed
qed

lemma reduce_objectStep_fails:
  "(\<exists>err. reduce (objectStep rt) acc es = Inl err)
     \<longleftrightarrow> (\<exists>p\<in>set es. fst p \<noteq> [] \<and> isl (ToNumber rt (snd p)))"
proof (induction es arbitrary: acc)
  case Nil
  show ?case by simp
next
  case (Cons e es)
  show ?case
  proof (cases "objectStep rt acc e")
    case (Inl err)
    then have "fst e \<noteq> [] \<and> isl (ToNumber rt (snd e))"
      using objectStep_fails [of rt acc e] by blast
    then show ?thesis using Inl by auto
  next
    case (Inr acc')
    then have "\<not> (fst e \<noteq> [] \<and> isl (ToNumber rt (snd e)))"
      using objectStep_fails [of rt acc e] by auto
    then show ?thesis using Inr Cons.IH [of acc'] by auto
  qed
qed

lemma reduce_objectStep_error:
  "reduce (objectStep rt) acc es = Inl err \<Longrightarrow> err = TypeError"
proof (induction es arbitrary: acc)
  case Nil
  then show ?case by simp
next
  case (Cons e es)
  show ?case
  proof (cases "objectStep rt acc e")
    case (Inl x)
    then show ?thesis using Cons.prems objectStep_error [of rt acc e x] by simp
  next
    case (Inr acc')
    then show ?thesis using Cons.prems Cons.IH [of acc'] by simp
  qed
qed

lemma inventoryOk_empty: "inventoryOk Map.empty"
  by (simp add: inventoryOk_def)

lemma inventoryOk_update:
  assumes "inventoryOk acc" and "k \<noteq> []" and "k \<noteq> js ''__proto__''" and "0 \<le> n"
  shows "inventoryOk (acc(k \<mapsto> Num (Finite (of_int n))))"
proof -
  have "ran (acc(k \<mapsto> x)) \<subseteq> insert x (ran acc)" for x
    by (auto simp: ran_def split: if_splits)
  then have "\<forall>v\<in>ran (acc(k \<mapsto> Num (Finite (of_int n)))). \<exists>m. 0 \<le> m \<and> v = Num (Finite (of_int m))"
    using assms(1,4) unfolding inventoryOk_def by blast
  then show ?thesis
    using assms unfolding inventoryOk_def by simp
qed

lemma objectStep_ok:
  assumes "objectStep rt acc e = Inr acc'" and "inventoryOk acc"
  shows "inventoryOk acc'"
proof -
  obtain k v where e: "e = (k, v)" by (cases e)
  have proto: "js ''__proto__'' \<notin> dom acc" using assms(2) by (simp add: inventoryOk_def)
  show ?thesis
  proof (cases "k = []")
    case True
    then show ?thesis using assms e by (simp add: objectStep_empty_key)
  next
    case False
    show ?thesis
    proof (cases "ToNumber rt v")
      case (Inl x)
      then show ?thesis using assms(1) e False by (simp add: objectStep_cases)
    next
      case (Inr n)
      show ?thesis
      proof (cases n)
        case (Finite q)
        have acc': "acc' = setProperty acc k (Num (clampFloor q))"
          using assms(1) e False Inr Finite by (simp add: objectStep_cases)
        show ?thesis
        proof (cases "k = js ''__proto__''")
          case True
          then have "acc k = None" using proto by (simp add: domIff)
          then have "acc' = acc" using acc' True by (simp add: setProperty_def)
          then show ?thesis using assms(2) by simp
        next
          case notproto: False
          then have "acc' = acc(k \<mapsto> Num (Finite (of_int (max 0 \<lfloor>q\<rfloor>))))"
            using acc' by (simp add: setProperty_def clampFloor_def)
          then show ?thesis
            using inventoryOk_update [OF assms(2) False notproto, of "max 0 \<lfloor>q\<rfloor>"] by simp
        qed
      qed (use assms e False Inr in \<open>simp_all add: objectStep_cases\<close>)
    qed
  qed
qed

lemma reduce_objectStep_ok:
  "reduce (objectStep rt) acc es = Inr res \<Longrightarrow> inventoryOk acc \<Longrightarrow> inventoryOk res"
proof (induction es arbitrary: acc)
  case Nil
  then show ?case by simp
next
  case (Cons e es)
  from Cons.prems(1) obtain acc' where s: "objectStep rt acc e = Inr acc'"
    and r: "reduce (objectStep rt) acc' es = Inr res"
    by (auto split: sum.splits)
  show ?case
    using Cons.IH [OF r objectStep_ok [OF s Cons.prems(2)]] .
qed

lemma plain_rule:
  "\<forall>items. map_of es (js ''cards'') \<noteq> Some (JArray items) \<Longrightarrow>
   normalizeInventory rt (JObject es) = reduce (objectStep rt) Map.empty es"
  by (auto split: option.splits jsvalue.splits)

lemma inventoryObject_normal:
  assumes ok: "inventoryOk (map_of es)" and d: "distinct (map fst es)"
  shows "normalizeInventory rt (inventoryObject es) = Inr (map_of es)"
proof -
  let ?es = "map (\<lambda>(k, s). (k, storedValue s)) es"
  have keys: "map fst ?es = map fst es" by (induction es) auto
  have look: "map_of ?es k = map_option storedValue (map_of es k)" for k
    by (induction es) auto
  have d': "distinct (map fst ?es)" unfolding keys by (rule d)
  have num: "\<exists>n. 0 \<le> n \<and> s = Num (Finite (of_int n))" if "map_of es k = Some s" for k s
  proof -
    from that have "s \<in> ran (map_of es)" by (auto simp: ran_def)
    then show ?thesis using ok unfolding inventoryOk_def by blast
  qed
  have "\<forall>items. map_of ?es (js ''cards'') \<noteq> Some (JArray items)"
  proof (cases "map_of es (js ''cards'')")
    case None
    then show ?thesis unfolding look by simp
  next
    case (Some s)
    then obtain n where "s = Num (Finite (of_int n))" using num by blast
    then show ?thesis unfolding look Some by simp
  qed
  then have plain: "normalizeInventory rt (JObject ?es) = reduce (objectStep rt) Map.empty ?es"
    by (rule plain_rule)
  have "\<not> (\<exists>p\<in>set ?es. fst p \<noteq> [] \<and> isl (ToNumber rt (snd p)))"
  proof
    assume "\<exists>p\<in>set ?es. fst p \<noteq> [] \<and> isl (ToNumber rt (snd p))"
    then obtain k s where "(k, s) \<in> set es" and "isl (ToNumber rt (storedValue s))"
      by auto
    moreover from this d have "map_of es k = Some s" by simp
    then obtain n where "s = Num (Finite (of_int n))" using num by blast
    ultimately show False by simp
  qed
  then have "\<not> (\<exists>err. reduce (objectStep rt) Map.empty ?es = Inl err)"
    by (simp only: reduce_objectStep_fails not_False_eq_True)
  then obtain res where res: "reduce (objectStep rt) Map.empty ?es = Inr res"
    by (cases "reduce (objectStep rt) Map.empty ?es") auto
  have "res = map_of es"
  proof (rule ext)
    fix k
    have v: "res k = (case map_of ?es k of
        None \<Rightarrow> None
      | Some v \<Rightarrow>
          if k = [] \<or> k = js ''__proto__'' then None
          else (case ToNumber rt v of Inr (Finite q) \<Rightarrow> Some (Num (clampFloor q)) | _ \<Rightarrow> None))"
      using reduce_objectStep_value [OF res d', of k] by simp
    show "res k = map_of es k"
    proof (cases "map_of es k")
      case None
      then show ?thesis unfolding v look by simp
    next
      case (Some s)
      then obtain n where n: "0 \<le> n" and s: "s = Num (Finite (of_int n))" using num by blast
      have "k \<in> dom (map_of es)" using Some by (simp add: domIff)
      then have "k \<noteq> []" and "k \<noteq> js ''__proto__''"
        using ok unfolding inventoryOk_def by auto
      then show ?thesis
        unfolding v look Some s using n by (simp add: clampFloor_def)
    qed
  qed
  then show ?thesis unfolding inventoryObject_def plain res by simp
qed

lemma floor_sample: "\<lfloor>5 / 2 :: rat\<rfloor> = 2"
  using floor_divide_of_int_eq [of 5 2, where ?'a = rat] by simp

text \<open>
  C8. Normalising is idempotent on plain mappings. On a plain object (one whose
  \<open>cards\<close> property, if any, is not an array) the normaliser either throws the
  \<^verbatim>\<open>TypeError\<close> of a conversion or returns an inventory, and that inventory, taken
  as a plain object again with its names enumerated in any order, normalises to itself.
\<close>

theorem normalizeInventory_idempotent:
  assumes "\<forall>items. map_of x (js ''cards'') \<noteq> Some (JArray items)"
  shows "normalizeInventory rt (JObject x) = Inl TypeError
       \<or> (\<exists>inventory. normalizeInventory rt (JObject x) = Inr inventory
             \<and> (\<exists>es. distinct (map fst es) \<and> map_of es = inventory)
             \<and> (\<forall>es. distinct (map fst es) \<and> map_of es = inventory \<longrightarrow>
                    normalizeInventory rt (inventoryObject es) = Inr inventory))"
proof (cases "normalizeInventory rt (JObject x)")
  case (Inl err)
  then have "reduce (objectStep rt) Map.empty x = Inl err"
    using plain_rule [OF assms, of rt] by simp
  then have "err = TypeError" by (rule reduce_objectStep_error)
  then show ?thesis using Inl by simp
next
  case (Inr inventory)
  then have "reduce (objectStep rt) Map.empty x = Inr inventory"
    using plain_rule [OF assms, of rt] by simp
  then have ok: "inventoryOk inventory"
    using inventoryOk_empty by (rule reduce_objectStep_ok)
  then have "finite (dom inventory)" by (simp add: inventoryOk_def)
  then have "\<exists>ks. set ks = dom inventory \<and> distinct ks" by (rule finite_distinct_list)
  then obtain ks where ks: "set ks = dom inventory" and dks: "distinct ks" by blast
  let ?es = "map (\<lambda>k. (k, the (inventory k))) ks"
  have m: "map_of ?es = inventory" using ks by (rule map_of_map_keys)
  have "map fst ?es = ks" by (induction ks) simp_all
  then have "distinct (map fst ?es)" using dks by simp
  then have "distinct (map fst ?es) \<and> map_of ?es = inventory" using m by simp
  then have ex: "\<exists>es. distinct (map fst es) \<and> map_of es = inventory" by (rule exI)
  have again: "\<forall>es. distinct (map fst es) \<and> map_of es = inventory \<longrightarrow>
              normalizeInventory rt (inventoryObject es) = Inr inventory"
  proof (intro allI impI)
    fix es :: "(jsstring \<times> stored) list"
    assume a: "distinct (map fst es) \<and> map_of es = inventory"
    then have "inventoryOk (map_of es)" using ok by simp
    then have "normalizeInventory rt (inventoryObject es) = Inr (map_of es)"
      using a by (intro inventoryObject_normal) simp_all
    then show "normalizeInventory rt (inventoryObject es) = Inr inventory"
      using a by simp
  qed
  show ?thesis using Inr ex again by simp
qed

theorem normalizeInventory_idempotent_witness:
  "normalizeInventory sampleRuntime
           (JObject [(js ''Card A'', JNumber (Finite (5 / 2))), (js ''Card B'', JNumber (Finite (- 1))),
                     (js ''Card C'', JNumber NaN)])
         = Inr [js ''Card A'' \<mapsto> Num (Finite 2), js ''Card B'' \<mapsto> Num (Finite 0)]
       \<and> normalizeInventory sampleRuntime
           (inventoryObject [(js ''Card B'', Num (Finite 0)), (js ''Card A'', Num (Finite 2))])
         = Inr [js ''Card A'' \<mapsto> Num (Finite 2), js ''Card B'' \<mapsto> Num (Finite 0)]"
proof -
  let ?x = "[(js ''Card A'', JNumber (Finite (5 / 2))), (js ''Card B'', JNumber (Finite (- 1))),
             (js ''Card C'', JNumber NaN)]"
  let ?inv = "[js ''Card A'' \<mapsto> Num (Finite 2), js ''Card B'' \<mapsto> Num (Finite 0)]"
  have n: "normalizeInventory sampleRuntime (JObject ?x) = Inr ?inv"
    by (simp add: inv_eval floor_sample)
  have h: "\<forall>items. map_of ?x (js ''cards'') \<noteq> Some (JArray items)"
    by (simp add: js_def)
  have e: "distinct (map fst [(js ''Card B'', Num (Finite 0)), (js ''Card A'', Num (Finite 2))])
      \<and> map_of [(js ''Card B'', Num (Finite 0)), (js ''Card A'', Num (Finite 2))] = ?inv"
    by (simp add: js_def)
  have "\<forall>es. distinct (map fst es) \<and> map_of es = ?inv \<longrightarrow>
                  normalizeInventory sampleRuntime (inventoryObject es) = Inr ?inv"
    using normalizeInventory_idempotent [OF h, of sampleRuntime] n by simp
  then have "normalizeInventory sampleRuntime
           (inventoryObject [(js ''Card B'', Num (Finite 0)), (js ''Card A'', Num (Finite 2))])
         = Inr ?inv"
    using e by blast
  then show "normalizeInventory sampleRuntime (JObject ?x) = Inr ?inv
       \<and> normalizeInventory sampleRuntime
           (inventoryObject [(js ''Card B'', Num (Finite 0)), (js ''Card A'', Num (Finite 2))])
         = Inr ?inv"
    using n by simp
qed

text \<open>
  C9, as the code has it. An object whose \<open>cards\<close> property is present and is not an
  array is not rejected as unsupported: the plain-object rule runs. It throws, a
  \<^verbatim>\<open>TypeError\<close>, exactly when the conversion of the value of some key that is not
  empty throws. Otherwise, under every key other than \<open>__proto__\<close>, the result is the
  inventory of the plain-object rule, in which \<open>cards\<close> is a card name like any other
  key, with its value coerced, floored and clamped, and is dropped when the value does
  not convert to a finite number.
\<close>

theorem normalizeInventory_cards_not_array:
  assumes "distinct (map fst es)"
    and "map_of es (js ''cards'') = Some v"
    and "\<forall>items. v \<noteq> JArray items"
  shows "normalizeInventory rt (JObject es) \<noteq> Inl UnsupportedFormatError
       \<and> (normalizeInventory rt (JObject es) = Inl TypeError
            \<longleftrightarrow> (\<exists>p\<in>set es. fst p \<noteq> [] \<and> isl (ToNumber rt (snd p))))
       \<and> (\<forall>inventory. normalizeInventory rt (JObject es) = Inr inventory \<longrightarrow>
            (\<forall>k. k \<noteq> js ''__proto__'' \<longrightarrow> inventory k = specPlainInventory rt es k)
            \<and> inventory (js ''cards'')
                = (case ToNumber rt v of
                     Inr (Finite q) \<Rightarrow> Some (Num (clampFloor q))
                   | _ \<Rightarrow> None))"
proof -
  have plain: "normalizeInventory rt (JObject es) = reduce (objectStep rt) Map.empty es"
    using assms(2,3) by (intro plain_rule) simp
  have err: "e = TypeError" if "normalizeInventory rt (JObject es) = Inl e" for e
    using that unfolding plain by (rule reduce_objectStep_error)
  have fails: "normalizeInventory rt (JObject es) = Inl TypeError
            \<longleftrightarrow> (\<exists>p\<in>set es. fst p \<noteq> [] \<and> isl (ToNumber rt (snd p)))"
    using reduce_objectStep_fails [of rt Map.empty es] err plain by metis
  have vals: "(\<forall>k. k \<noteq> js ''__proto__'' \<longrightarrow> inventory k = specPlainInventory rt es k)
            \<and> inventory (js ''cards'')
                = (case ToNumber rt v of
                     Inr (Finite q) \<Rightarrow> Some (Num (clampFloor q))
                   | _ \<Rightarrow> None)"
    if "normalizeInventory rt (JObject es) = Inr inventory" for inventory
  proof -
    have r: "reduce (objectStep rt) Map.empty es = Inr inventory"
      using that plain by simp
    have v: "inventory k = (case map_of es k of
        None \<Rightarrow> None
      | Some v \<Rightarrow>
          if k = [] \<or> k = js ''__proto__'' then None
          else (case ToNumber rt v of Inr (Finite q) \<Rightarrow> Some (Num (clampFloor q)) | _ \<Rightarrow> None))"
      for k
      using reduce_objectStep_value [OF r assms(1), of k] by simp
    have "inventory k = specPlainInventory rt es k" if "k \<noteq> js ''__proto__''" for k
      unfolding v specPlainInventory_def using that
      by (cases "map_of es k"; cases "k = []") simp_all
    moreover have "inventory (js ''cards'')
                = (case ToNumber rt v of
                     Inr (Finite q) \<Rightarrow> Some (Num (clampFloor q))
                   | _ \<Rightarrow> None)"
      unfolding v assms(2) by (simp add: js_def)
    ultimately show ?thesis by blast
  qed
  show ?thesis
    using err fails vals by blast
qed

theorem normalizeInventory_cards_not_array_witness:
  "normalizeInventory sampleRuntime
           (JObject [(js ''cards'', JNumber (Finite 3)), (js ''Card A'', JBool True)])
         = Inr [js ''cards'' \<mapsto> Num (Finite 3), js ''Card A'' \<mapsto> Num (Finite 1)]
       \<and> specPlainInventory sampleRuntime [(js ''cards'', JNumber (Finite 3)), (js ''Card A'', JBool True)]
           (js ''cards'') = Some (Num (Finite 3))"
proof -
  let ?es = "[(js ''cards'', JNumber (Finite 3)), (js ''Card A'', JBool True)]"
  let ?inv = "[js ''cards'' \<mapsto> Num (Finite 3), js ''Card A'' \<mapsto> Num (Finite 1)]"
  have n: "normalizeInventory sampleRuntime (JObject ?es) = Inr ?inv"
    by (simp add: inv_eval)
  have d: "distinct (map fst ?es)" by (simp add: js_def)
  have h: "map_of ?es (js ''cards'') = Some (JNumber (Finite 3))" by (simp add: js_def)
  have a: "\<forall>items. JNumber (Finite 3) \<noteq> JArray items" by simp
  have k: "js ''cards'' \<noteq> js ''__proto__''" by (simp add: js_def)
  have "?inv (js ''cards'') = specPlainInventory sampleRuntime ?es (js ''cards'')"
    using normalizeInventory_cards_not_array [OF d h a, of sampleRuntime] n k by blast
  then have "specPlainInventory sampleRuntime ?es (js ''cards'') = Some (Num (Finite 3))"
    by (simp add: js_def)
  then show "normalizeInventory sampleRuntime (JObject ?es) = Inr ?inv
       \<and> specPlainInventory sampleRuntime ?es (js ''cards'') = Some (Num (Finite 3))"
    using n by simp
qed

text \<open>
  C9 as stated, that the normaliser does not fail, fails: with a \<open>cards\<close> property
  that is an object with a property \<open>toString\<close> (present, and not an array) the
  conversion of that value throws.
\<close>

theorem normalizeInventory_cards_not_array_counterexample:
  "map_of [(js ''cards'', JObject [(js ''toString'', JNumber (Finite 1))])] (js ''cards'')
     = Some (JObject [(js ''toString'', JNumber (Finite 1))])
   \<and> normalizeInventory sampleRuntime
       (JObject [(js ''cards'', JObject [(js ''toString'', JNumber (Finite 1))])])
     = Inl TypeError"
  by (simp add: inv_eval)


end
